theory Spec2Isabelle
  imports Main
begin

section \<open>A shallow embedding of \<open>pytube/request.py\<close>\<close>

text \<open>
  The module fetches a remote resource in byte ranges (\<open>stream\<close>), rebuilds a
  resource that the server has split into numbered segments (\<open>seq_stream\<close>), and
  computes sizes without downloading (\<open>filesize\<close>, \<open>seq_filesize\<close>).

  Everything the Python does beyond computing a value is explicit here:
  \<^item> the network is a parameter, a \<open>transport\<close>: what \<open>urlopen\<close> answers to the
    \<open>n\<close>-th request of a run, and what \<open>random.choice\<close> draws there;
  \<^item> the state that is threaded through every function is the list of events so
    far, in order: every request handed to \<open>urlopen\<close>, every chunk a generator
    yields, every \<open>logger.error\<close>;
  \<^item> an exception is a value of type \<open>exn\<close>, returned on the left of a sum;
  \<^item> a generator is run by a consumer that pulls until it is exhausted; the outer
    loop of \<open>stream\<close> may run forever, so it is a partial function into \<open>option\<close>
    and \<open>None\<close> is a run that never ends.
\<close>

subsection \<open>Bytes, integers and their decimal form\<close>

type_synonym bytes = string

definition digit_char :: "nat \<Rightarrow> char" where
  "digit_char d = char_of (48 + d)"

definition is_digit :: "char \<Rightarrow> bool" where
  "is_digit c \<longleftrightarrow> 48 \<le> (of_char c :: nat) \<and> (of_char c :: nat) \<le> 57"

definition digit_val :: "char \<Rightarrow> nat" where
  "digit_val c = of_char c - 48"

text \<open>
  The decimal digits of a non-negative integer. Python integers are unbounded, and
  so are these: the value stays an \<open>int\<close> throughout.
\<close>

function decimal :: "int \<Rightarrow> string" where
  "decimal n = (if n < 10 then [digit_char (nat n)] else decimal (n div 10) @ [digit_char (nat (n mod 10))])"
  by pat_completeness auto
termination
  by (relation "measure nat") auto

declare decimal.simps [simp del]

text \<open>\<open>str(i)\<close>, which is what an f-string does to an integer.\<close>

definition str_int :: "int \<Rightarrow> string" where
  "str_int i = (if i < 0 then CHR ''-'' # decimal (- i) else decimal i)"

definition digits_value :: "string \<Rightarrow> int" where
  "digits_value ds = foldl (\<lambda>a c. 10 * a + int (digit_val c)) 0 ds"

subsection \<open>Exceptions\<close>

datatype reason = SocketTimeout | OtherReason

text \<open>
  Modelled from the spec: the exception classes \<open>MaxRetriesExceeded\<close> and
  \<open>RegexMatchError\<close> of \<open>pytube.exceptions\<close>, which is not among the sources. The
  first carries nothing; the second carries the name of the function that
  searched and the pattern searched for, the two arguments \<open>seq_filesize\<close> gives it.

  The others are Python's own. \<open>HTTPError\<close> is a subclass of \<open>URLError\<close> whose
  \<open>reason\<close> is a string, never a \<open>socket.timeout\<close>; \<open>OtherException\<close> stands for any
  exception that the module does not name.
\<close>

datatype exn =
    URLError reason
  | HTTPError nat
  | IncompleteRead
  | ValueError
  | KeyError
  | IndexError
  | TypeError
  | StopIteration
  | UnboundLocalError
  | MaxRetriesExceeded
  | RegexMatchError string string
  | OtherException string

subsection \<open>\<open>int(...)\<close>\<close>

definition is_space :: "char \<Rightarrow> bool" where
  "is_space c \<longleftrightarrow> (of_char c :: nat) \<in> {9, 10, 11, 12, 13, 32}"

definition strip :: "string \<Rightarrow> string" where
  "strip s = rev (dropWhile is_space (rev (dropWhile is_space s)))"

fun double_underscore :: "string \<Rightarrow> bool" where
  "double_underscore (c # d # cs) = ((c = CHR ''_'' \<and> d = CHR ''_'') \<or> double_underscore (d # cs))"
| "double_underscore _ = False"

text \<open>
  The digits of a decimal literal: digits, with single underscores allowed between
  two digits.
\<close>

definition parse_digits :: "string \<Rightarrow> int option" where
  "parse_digits s =
     (if s = [] \<or> hd s = CHR ''_'' \<or> last s = CHR ''_'' \<or> double_underscore s
         \<or> list_ex (\<lambda>c. \<not> is_digit c \<and> c \<noteq> CHR ''_'') s
      then None
      else Some (digits_value (filter is_digit s)))"

definition int_of_str :: "string \<Rightarrow> exn + int" where
  "int_of_str s =
     (let t = strip s;
          neg = (t \<noteq> [] \<and> hd t = CHR ''-'');
          body = (if t \<noteq> [] \<and> (hd t = CHR ''-'' \<or> hd t = CHR ''+'') then tl t else t)
      in case parse_digits body of
           None \<Rightarrow> Inl ValueError
         | Some n \<Rightarrow> Inr (if neg then - n else n))"

text \<open>
  Python's \<open>int(x)\<close> where \<open>x\<close> is a string (or bytes) or \<open>None\<close>: \<open>int(None)\<close>
  raises \<open>TypeError\<close>, a malformed literal raises \<open>ValueError\<close>.
\<close>

definition py_int :: "string option \<Rightarrow> exn + int" where
  "py_int x = (case x of None \<Rightarrow> Inl TypeError | Some s \<Rightarrow> int_of_str s)"

subsection \<open>Dictionaries\<close>

text \<open>
  A Python \<open>dict\<close> keeps insertion order, and assigning to a key that is present
  keeps the key's place.
\<close>

fun setitem :: "'k \<Rightarrow> 'v \<Rightarrow> ('k \<times> 'v) list \<Rightarrow> ('k \<times> 'v) list" where
  "setitem k v [] = [(k, v)]"
| "setitem k v (p # ps) = (if fst p = k then (k, v) # ps else p # setitem k v ps)"

definition dict_update :: "('k \<times> 'v) list \<Rightarrow> ('k \<times> 'v) list \<Rightarrow> ('k \<times> 'v) list" where
  "dict_update d kvs = foldl (\<lambda>acc (k, v). setitem k v acc) d kvs"

definition dict :: "('k \<times> 'v) list \<Rightarrow> ('k \<times> 'v) list" where
  "dict kvs = dict_update [] kvs"

definition lower_char :: "char \<Rightarrow> char" where
  "lower_char c =
     (if 65 \<le> (of_char c :: nat) \<and> (of_char c :: nat) \<le> 90 then char_of ((of_char c :: nat) + 32) else c)"

definition lower :: "string \<Rightarrow> string" where
  "lower s = map lower_char s"

subsection \<open>Requests, responses and the transport\<close>

text \<open>
  \<open>req_timeout = None\<close> is \<open>socket._GLOBAL_DEFAULT_TIMEOUT\<close>. The timeout is handed
  to \<open>urlopen\<close> and takes no other part in the module.
\<close>

record request =
  req_url :: string
  req_method :: "string option"
  req_headers :: "(string \<times> string) list"
  req_timeout :: "nat option"

text \<open>
  What one call of \<open>response.read()\<close> does: return bytes, or raise. A response
  holds the results of its successive reads; once they are used up, \<open>read()\<close>
  returns \<open>b''\<close>.
\<close>

datatype read = Data bytes | ReadRaises exn

record response =
  resp_info :: "(string \<times> string) list"
  resp_body :: "read list"

datatype event = Request request | Yield bytes int | LogError exn

text \<open>
  \<open>Yield chunk d\<close> is a chunk handed to the consumer by \<open>stream\<close>, with the value
  of \<open>stream\<close>'s local \<open>downloaded\<close> at that moment.
\<close>

record transport =
  urlopen :: "nat \<Rightarrow> request \<Rightarrow> exn + response"
  choice :: "nat \<Rightarrow> nat"

fun is_request :: "event \<Rightarrow> bool" where
  "is_request (Request r) = True"
| "is_request _ = False"

definition clock :: "event list \<Rightarrow> nat" where
  "clock tr = length (filter is_request tr)"

definition user_agents :: "string list" where
  "user_agents =
    [''Mozilla/5.0 (Windows NT 10.0; Win64; x64) AppleWebKit/537.36 (KHTML, like Gecko) Chrome/91.0.4472.124 Safari/537.36'',
     ''Mozilla/5.0 (Macintosh; Intel Mac OS X 10_15_7) AppleWebKit/605.1.15 (KHTML, like Gecko) Version/14.1.1 Safari/605.1.15'',
     ''Mozilla/5.0 (X11; Linux x86_64) AppleWebKit/537.36 (KHTML, like Gecko) Chrome/92.0.4515.107 Safari/537.36'',
     ''Mozilla/5.0 (Windows NT 10.0; Win64; x64; rv:90.0) Gecko/20100101 Firefox/90.0'',
     ''Mozilla/5.0 (iPhone; CPU iPhone OS 14_6 like Mac OS X) AppleWebKit/605.1.15 (KHTML, like Gecko) Version/14.0 Mobile/15E148 Safari/604.1'',
     ''Mozilla/5.0 (Windows NT 6.3; WOW64; Trident/7.0; rv:11.0) like Gecko'',
     ''Mozilla/5.0 (Windows NT 6.1) AppleWebKit/537.36 (KHTML, like Gecko) Chrome/45.0.2454.85 Safari/537.36'',
     ''Mozilla/5.0 (Windows NT 6.1; Trident/7.0; rv:11.0) like Gecko'',
     ''Mozilla/5.0 (Windows NT 10.0; WOW64; rv:40.0) Gecko/20100101 Firefox/40.0'',
     ''Mozilla/5.0 (Macintosh; Intel Mac OS X 10_10_4) AppleWebKit/600.7.12 (KHTML, like Gecko) Version/8.0.7 Safari/600.7.12'',
     ''Mozilla/5.0 (Macintosh; Intel Mac OS X 10_10_5) AppleWebKit/537.36 (KHTML, like Gecko) Chrome/45.0.2454.85 Safari/537.36'',
     ''Mozilla/5.0 (Macintosh; Intel Mac OS X 10.10; rv:40.0) Gecko/20100101 Firefox/40.0'',
     ''Mozilla/5.0 (Macintosh; Intel Mac OS X 10_9_5) AppleWebKit/600.8.9 (KHTML, like Gecko) Version/7.1.8 Safari/537.85.17'',
     ''Mozilla/5.0 (iPad; CPU OS 8_4 like Mac OS X) AppleWebKit/600.1.4 (KHTML, like Gecko) Version/8.0 Mobile/12H143 Safari/600.1.4'',
     ''Mozilla/5.0 (iPad; CPU OS 8_3 like Mac OS X) AppleWebKit/600.1.4 (KHTML, like Gecko) Version/8.0 Mobile/12F69 Safari/600.1.4'',
     ''Mozilla/5.0 (Windows NT 6.1; rv:40.0) Gecko/20100101 Firefox/40.0'',
     ''Mozilla/5.0 (compatible; MSIE 10.0; Windows NT 6.1; WOW64; Trident/6.0)'',
     ''Mozilla/5.0 (compatible; MSIE 9.0; Windows NT 6.1; WOW64; Trident/5.0)'',
     ''Mozilla/5.0 (Windows NT 6.3; WOW64; Trident/7.0; Touch; rv:11.0) like Gecko'']"

text \<open>
  \<open>_execute_request\<close>, for the callers in this module, none of which passes
  \<open>data\<close>. The request is built first; only a URL whose lower-cased form starts
  with \<open>http\<close> reaches \<open>urlopen\<close>, any other raises \<open>ValueError\<close> with no request
  made.
\<close>

definition build_request ::
  "transport \<Rightarrow> nat \<Rightarrow> string \<Rightarrow> string option \<Rightarrow> (string \<times> string) list option \<Rightarrow> nat option \<Rightarrow> request" where
  "build_request net n url method headers timeout =
     (let base_headers =
            [(''User-Agent'', user_agents ! (choice net n mod length user_agents)),
             (''accept-language'', ''en-US,en'')];
          base_headers = (case headers of None \<Rightarrow> base_headers | Some hs \<Rightarrow> dict_update base_headers hs)
      in \<lparr>req_url = url, req_method = method, req_headers = base_headers, req_timeout = timeout\<rparr>)"

definition execute_request ::
  "transport \<Rightarrow> string \<Rightarrow> string option \<Rightarrow> (string \<times> string) list option \<Rightarrow> nat option \<Rightarrow>
   event list \<Rightarrow> (exn + response) \<times> event list" where
  "execute_request net url method headers timeout tr =
     (let request = build_request net (clock tr) url method headers timeout
      in if take 4 (lower url) = ''http''
         then (urlopen net (clock tr) request, tr @ [Request request])
         else (Inl ValueError, tr))"

subsection \<open>\<open>stream\<close>\<close>

definition default_range_size :: int where
  "default_range_size = 9437184"

text \<open>
  The module reads the global \<open>default_range_size\<close> each time it is used; the
  functions below take its current value as their argument \<open>C\<close>, so that a run
  with another chunk size (a test that sets the global to 10) is a run of the same
  functions.
\<close>

text \<open>
  The retry loop of \<open>stream\<close> (\<open>while True\<close> around the request): a \<open>URLError\<close>
  whose reason is a socket timeout and an \<open>IncompleteRead\<close> are swallowed and
  counted, anything else propagates.
\<close>

fun swallowed :: "exn \<Rightarrow> bool" where
  "swallowed (URLError r) = (r = SocketTimeout)"
| "swallowed IncompleteRead = True"
| "swallowed _ = False"

function stream_retry ::
  "transport \<Rightarrow> string \<Rightarrow> nat option \<Rightarrow> int \<Rightarrow> int \<Rightarrow> int \<Rightarrow> int \<Rightarrow> event list \<Rightarrow>
   (exn + response) \<times> event list" where
  "stream_retry net url timeout max_retries downloaded stop_pos tries tr =
     (if tries \<ge> 1 + max_retries then (Inl MaxRetriesExceeded, tr)
      else
        (case execute_request net
                (url @ ''&range='' @ str_int downloaded @ ''-'' @ str_int stop_pos)
                (Some ''GET'') None timeout tr of
           (Inr response, tr') \<Rightarrow> (Inr response, tr')
         | (Inl e, tr') \<Rightarrow>
             if swallowed e
             then stream_retry net url timeout max_retries downloaded stop_pos (tries + 1) tr'
             else (Inl e, tr')))"
  by pat_completeness auto
termination
  by (relation "measure (\<lambda>(net, url, timeout, max_retries, downloaded, stop_pos, tries, tr).
         nat (1 + max_retries - tries))") auto

declare stream_retry.simps [simp del]

text \<open>
  \<open>resp.info()["Content-Length"]\<close> on the \<open>HTTPMessage\<close> of a response: the lookup
  ignores case, returns the first header of that name, and returns \<open>None\<close> (it does
  not raise) when there is none.
\<close>

definition message_getitem :: "(string \<times> string) list \<Rightarrow> string \<Rightarrow> string option" where
  "message_getitem hs name = map_of (map (\<lambda>(k, v). (lower k, v)) hs) (lower name)"

text \<open>
  The size probe (the \<open>try\<close> under \<open>if file_size == default_range_size\<close>). The
  result is the new \<open>file_size\<close>, or the exception that leaves \<open>stream\<close>.
\<close>

definition probe :: "transport \<Rightarrow> string \<Rightarrow> nat option \<Rightarrow> int \<Rightarrow> event list \<Rightarrow> (exn + int) \<times> event list" where
  "probe net url timeout file_size tr =
     (case execute_request net (url @ ''&range=0-99999999999'') (Some ''GET'') None timeout tr of
        (r, tr') \<Rightarrow>
          (case (case r of Inl e \<Rightarrow> Inl e
                 | Inr resp \<Rightarrow> py_int (message_getitem (resp_info resp) ''Content-Length'')) of
             Inr n \<Rightarrow> (Inr n, tr')
           | Inl e \<Rightarrow>
               if e = KeyError \<or> e = IndexError \<or> e = ValueError
               then (Inr file_size, tr' @ [LogError e])
               else (Inl e, tr')))"

text \<open>
  The read loop of \<open>stream\<close>: how it ends, the new \<open>downloaded\<close>, the events.
\<close>

datatype drained = Break | Return | Raise exn

fun drain :: "read list \<Rightarrow> int \<Rightarrow> event list \<Rightarrow> drained \<times> int \<times> event list" where
  "drain [] downloaded tr = (Break, downloaded, tr)"
| "drain (ReadRaises e # rs) downloaded tr =
     (if e = StopIteration then (Return, downloaded, tr) else (Raise e, downloaded, tr))"
| "drain (Data chunk # rs) downloaded tr =
     (if chunk = [] then (Break, downloaded, tr)
      else drain rs (downloaded + int (length chunk))
             (tr @ [Yield chunk (downloaded + int (length chunk))]))"

datatype outcome = Returned | Raised exn

text \<open>
  One turn of the outer loop of \<open>stream\<close>: either the generator is over, or the
  loop goes on with a new \<open>file_size\<close> and \<open>downloaded\<close>.
\<close>

datatype turn = Stop outcome "event list" | Again int int "event list"

definition stream_turn ::
  "transport \<Rightarrow> int \<Rightarrow> string \<Rightarrow> nat option \<Rightarrow> int \<Rightarrow> int \<Rightarrow> int \<Rightarrow> event list \<Rightarrow> turn" where
  "stream_turn net C url timeout max_retries file_size downloaded tr =
     (if downloaded < file_size then
        (let stop_pos = min (downloaded + C) file_size - 1 in
         case stream_retry net url timeout max_retries downloaded stop_pos 0 tr of
           (Inl e, tr1) \<Rightarrow> Stop (Raised e) tr1
         | (Inr response, tr1) \<Rightarrow>
             (case (if file_size = C then probe net url timeout file_size tr1
                    else (Inr file_size, tr1)) of
                (Inl e, tr2) \<Rightarrow> Stop (Raised e) tr2
              | (Inr file_size', tr2) \<Rightarrow>
                  (case drain (resp_body response) downloaded tr2 of
                     (Break, downloaded', tr3) \<Rightarrow> Again file_size' downloaded' tr3
                   | (Return, downloaded', tr3) \<Rightarrow> Stop Returned tr3
                   | (Raise e, downloaded', tr3) \<Rightarrow> Stop (Raised e) tr3)))
      else Stop Returned tr)"

partial_function (option) stream_loop ::
  "transport \<Rightarrow> int \<Rightarrow> string \<Rightarrow> nat option \<Rightarrow> int \<Rightarrow> int \<Rightarrow> int \<Rightarrow> event list \<Rightarrow>
   (outcome \<times> event list) option" where
  "stream_loop net C url timeout max_retries file_size downloaded tr =
     (case stream_turn net C url timeout max_retries file_size downloaded tr of
        Stop out tr' \<Rightarrow> Some (out, tr')
      | Again file_size' downloaded' tr' \<Rightarrow>
          stream_loop net C url timeout max_retries file_size' downloaded' tr')"

declare stream_loop.simps [code]

definition stream ::
  "transport \<Rightarrow> int \<Rightarrow> string \<Rightarrow> nat option \<Rightarrow> int \<Rightarrow> event list \<Rightarrow> (outcome \<times> event list) option" where
  "stream net C url timeout max_retries tr = stream_loop net C url timeout max_retries C 0 tr"

subsection \<open>\<open>urllib.parse\<close>\<close>

text \<open>
  \<open>urlsplit\<close>, \<open>parse_qsl\<close> and \<open>urlencode\<close> belong to Python's standard library.
  They are parameters here; the module only composes them.
\<close>

record split_result =
  scheme :: string
  netloc :: string
  path :: string
  query :: string
  fragment :: string

record urllib =
  urlsplit :: "string \<Rightarrow> split_result"
  parse_qsl :: "string \<Rightarrow> (string \<times> string) list"
  urlencode :: "(string \<times> string) list \<Rightarrow> string"

text \<open>
  The first lines of \<open>seq_stream\<close> and of \<open>seq_filesize\<close>: \<open>base_url\<close> and
  \<open>querys\<close>. \<open>querys['sq']\<close> is assigned an integer, which \<open>urlencode\<close> turns into
  its \<open>str\<close>; the dictionary here holds that string.
\<close>

definition base_url_of :: "urllib \<Rightarrow> string \<Rightarrow> string" where
  "base_url_of lib url =
     (let split_url = urlsplit lib url
      in scheme split_url @ ''://'' @ netloc split_url @ ''/'' @ path split_url @ ''?'')"

definition querys_of :: "urllib \<Rightarrow> string \<Rightarrow> (string \<times> string) list" where
  "querys_of lib url = dict (parse_qsl lib (query (urlsplit lib url)))"

subsection \<open>The segment count in segment 0\<close>

text \<open>\<open>bytes.split\<close> at every CR LF pair.\<close>

fun split_crlf :: "bytes \<Rightarrow> bytes list" where
  "split_crlf [] = [[]]"
| "split_crlf [c] = [[c]]"
| "split_crlf (c # d # cs) =
     (if c = CHR 0x0D \<and> d = CHR 0x0A then [] # split_crlf cs
      else (case split_crlf (d # cs) of
              [] \<Rightarrow> [[c]]
            | l # ls \<Rightarrow> (c # l) # ls))"

text \<open>
  The compiled pattern's \<open>search(line)\<close>, giving group 1 of the leftmost match:
  the literal text \<open>Segment-Count: \<close>, then the longest run of one or more ASCII
  digits, which is the group.
\<close>

fun segment_count_search :: "bytes \<Rightarrow> bytes option" where
  "segment_count_search [] = None"
| "segment_count_search (c # cs) =
     (if take 15 (c # cs) = ''Segment-Count: '' \<and> takeWhile is_digit (drop 15 (c # cs)) \<noteq> []
      then Some (takeWhile is_digit (drop 15 (c # cs)))
      else segment_count_search cs)"

definition segment_regex :: bytes where
  "segment_regex = ''Segment-Count: ('' @ [CHR 0x5C] @ ''d+)''"

text \<open>
  The \<open>for line in stream_info\<close> loop of \<open>seq_stream\<close>. The second argument is
  \<open>segment_count\<close>, \<open>None\<close> while the name is not bound.
\<close>

fun scan_stream_info :: "bytes list \<Rightarrow> int option \<Rightarrow> exn + int option" where
  "scan_stream_info [] segment_count = Inr segment_count"
| "scan_stream_info (line # lines) segment_count =
     (case segment_count_search line of
        None \<Rightarrow> scan_stream_info lines segment_count
      | Some g \<Rightarrow>
          (case int_of_str g of
             Inl e \<Rightarrow> Inl e
           | Inr n \<Rightarrow> scan_stream_info lines (Some n)))"

subsection \<open>\<open>seq_stream\<close>\<close>

fun chunk_of :: "event \<Rightarrow> bytes" where
  "chunk_of (Yield chunk d) = chunk"
| "chunk_of _ = []"

text \<open>
  The \<open>while seq_num <= segment_count\<close> loop. It ends by itself; the only way
  not to return is a \<open>stream\<close> that never ends.
\<close>

function seq_stream_loop ::
  "transport \<Rightarrow> urllib \<Rightarrow> int \<Rightarrow> string \<Rightarrow> (string \<times> string) list \<Rightarrow> nat option \<Rightarrow> int \<Rightarrow>
   int \<Rightarrow> int \<Rightarrow> event list \<Rightarrow> (outcome \<times> event list) option" where
  "seq_stream_loop net lib C base_url querys timeout max_retries segment_count seq_num tr =
     (if seq_num \<le> segment_count then
        (case stream net C (base_url @ urlencode lib (setitem ''sq'' (str_int seq_num) querys))
                timeout max_retries tr of
           None \<Rightarrow> None
         | Some (Raised e, tr') \<Rightarrow> Some (Raised e, tr')
         | Some (Returned, tr') \<Rightarrow>
             seq_stream_loop net lib C base_url (setitem ''sq'' (str_int seq_num) querys)
               timeout max_retries segment_count (seq_num + 1) tr')
      else Some (Returned, tr))"
  by pat_completeness auto
termination
  by (relation "measure (\<lambda>(net, lib, C, base_url, querys, timeout, max_retries, segment_count, seq_num, tr).
         nat (segment_count + 1 - seq_num))") auto

declare seq_stream_loop.simps [simp del]

text \<open>
  \<open>segment_data\<close> is the concatenation of the chunks that the first \<open>stream\<close>
  yielded, that is, of the chunks among the events it added.
\<close>

definition seq_stream ::
  "transport \<Rightarrow> urllib \<Rightarrow> int \<Rightarrow> string \<Rightarrow> nat option \<Rightarrow> int \<Rightarrow> event list \<Rightarrow>
   (outcome \<times> event list) option" where
  "seq_stream net lib C url timeout max_retries tr =
     (let base_url = base_url_of lib url;
          querys = setitem ''sq'' (str_int 0) (querys_of lib url)
      in case stream net C (base_url @ urlencode lib querys) timeout max_retries tr of
           None \<Rightarrow> None
         | Some (Raised e, tr') \<Rightarrow> Some (Raised e, tr')
         | Some (Returned, tr') \<Rightarrow>
             (let segment_data = concat (map chunk_of (drop (length tr) tr'));
                  stream_info = split_crlf segment_data
              in case scan_stream_info stream_info None of
                   Inl e \<Rightarrow> Some (Raised e, tr')
                 | Inr None \<Rightarrow> Some (Raised UnboundLocalError, tr')
                 | Inr (Some segment_count) \<Rightarrow>
                     seq_stream_loop net lib C base_url querys timeout max_retries
                       segment_count 1 tr'))"

subsection \<open>\<open>head\<close>, \<open>filesize\<close>, \<open>seq_filesize\<close>\<close>

definition dict_getitem :: "('k \<times> 'v) list \<Rightarrow> 'k \<Rightarrow> exn + 'v" where
  "dict_getitem d k = (case map_of d k of None \<Rightarrow> Inl KeyError | Some v \<Rightarrow> Inr v)"

definition head ::
  "transport \<Rightarrow> string \<Rightarrow> event list \<Rightarrow> (exn + (string \<times> string) list) \<times> event list" where
  "head net url tr =
     (case execute_request net url (Some ''HEAD'') None None tr of
        (Inl e, tr') \<Rightarrow> (Inl e, tr')
      | (Inr response, tr') \<Rightarrow> (Inr (dict (map (\<lambda>(k, v). (lower k, v)) (resp_info response))), tr'))"

text \<open>\<open>int(head(url)["content-length"])\<close>.\<close>

definition content_length :: "transport \<Rightarrow> string \<Rightarrow> event list \<Rightarrow> (exn + int) \<times> event list" where
  "content_length net url tr =
     (case head net url tr of
        (Inl e, tr') \<Rightarrow> (Inl e, tr')
      | (Inr headers, tr') \<Rightarrow>
          (case dict_getitem headers ''content-length'' of
             Inl e \<Rightarrow> (Inl e, tr')
           | Inr v \<Rightarrow> (int_of_str v, tr')))"


text \<open>
  Modelled from the spec: \<open>pytube.helpers.regex_search\<close>, which is not among the
  sources. The spec has \<open>seq_filesize\<close> scan each line for the pattern
  \<open>Segment-Count: <digits>\<close> as \<open>seq_stream\<close> does, a line without a match being
  a pattern-not-matched error; the result is the requested group of the match.
\<close>

definition regex_search :: "bytes \<Rightarrow> exn + bytes" where
  "regex_search line =
     (case segment_count_search line of
        None \<Rightarrow> Inl (RegexMatchError ''regex_search'' segment_regex)
      | Some g \<Rightarrow> Inr g)"

text \<open>
  The \<open>for line in stream_info\<close> loop of \<open>seq_filesize\<close>: a \<open>RegexMatchError\<close>
  is passed over, any other exception leaves the function.
\<close>

fun scan_segment_count :: "bytes list \<Rightarrow> int \<Rightarrow> exn + int" where
  "scan_segment_count [] segment_count = Inr segment_count"
| "scan_segment_count (line # lines) segment_count =
     (case regex_search line of
        Inl (RegexMatchError caller pattern) \<Rightarrow> scan_segment_count lines segment_count
      | Inl e \<Rightarrow> Inl e
      | Inr g \<Rightarrow>
          (case int_of_str g of
             Inl (RegexMatchError caller pattern) \<Rightarrow> scan_segment_count lines segment_count
           | Inl e \<Rightarrow> Inl e
           | Inr n \<Rightarrow> scan_segment_count lines n))"

text \<open>The \<open>while seq_num <= segment_count\<close> loop of \<open>seq_filesize\<close>.\<close>

function seq_filesize_loop ::
  "transport \<Rightarrow> urllib \<Rightarrow> string \<Rightarrow> (string \<times> string) list \<Rightarrow> int \<Rightarrow> int \<Rightarrow> int \<Rightarrow> event list \<Rightarrow>
   (exn + int) \<times> event list" where
  "seq_filesize_loop net lib base_url querys segment_count seq_num total_filesize tr =
     (if seq_num \<le> segment_count then
        (case content_length net (base_url @ urlencode lib (setitem ''sq'' (str_int seq_num) querys)) tr of
           (Inl e, tr') \<Rightarrow> (Inl e, tr')
         | (Inr n, tr') \<Rightarrow>
             seq_filesize_loop net lib base_url (setitem ''sq'' (str_int seq_num) querys)
               segment_count (seq_num + 1) (total_filesize + n) tr')
      else (Inr total_filesize, tr))"
  by pat_completeness auto
termination
  by (relation "measure (\<lambda>(net, lib, base_url, querys, segment_count, seq_num, total_filesize, tr).
         nat (segment_count + 1 - seq_num))") auto

declare seq_filesize_loop.simps [simp del]

text \<open>One \<open>response.read()\<close> on a fresh response.\<close>

fun read_body :: "read list \<Rightarrow> exn + bytes" where
  "read_body [] = Inr []"
| "read_body (Data b # rs) = Inr b"
| "read_body (ReadRaises e # rs) = Inl e"

text \<open>The body of \<open>seq_filesize\<close>, under its \<open>lru_cache\<close>.\<close>

definition seq_filesize_wrapped ::
  "transport \<Rightarrow> urllib \<Rightarrow> string \<Rightarrow> event list \<Rightarrow> (exn + int) \<times> event list" where
  "seq_filesize_wrapped net lib url tr =
     (let base_url = base_url_of lib url;
          querys = setitem ''sq'' (str_int 0) (querys_of lib url)
      in case execute_request net (base_url @ urlencode lib querys) (Some ''GET'') None None tr of
           (Inl e, tr') \<Rightarrow> (Inl e, tr')
         | (Inr response, tr') \<Rightarrow>
             (case read_body (resp_body response) of
                Inl e \<Rightarrow> (Inl e, tr')
              | Inr response_value \<Rightarrow>
                  (let total_filesize = 0 + int (length response_value);
                       stream_info = split_crlf response_value
                   in case scan_segment_count stream_info 0 of
                        Inl e \<Rightarrow> (Inl e, tr')
                      | Inr segment_count \<Rightarrow>
                          if segment_count = 0
                          then (Inl (RegexMatchError ''seq_filesize'' segment_regex), tr')
                          else seq_filesize_loop net lib base_url querys segment_count 1
                                 total_filesize tr')))"

text \<open>
  \<open>functools.lru_cache()\<close> with its default \<open>maxsize\<close> of 128, keyed by the
  argument. The cache is the list of remembered results, most recently used
  first. A call that raises is not remembered.
\<close>

definition lru_cache ::
  "('a \<Rightarrow> event list \<Rightarrow> (exn + 'b) \<times> event list) \<Rightarrow> 'a \<Rightarrow> ('a \<times> 'b) list \<times> event list \<Rightarrow>
   (exn + 'b) \<times> ('a \<times> 'b) list \<times> event list" where
  "lru_cache f x = (\<lambda>(cache, tr).
     case map_of cache x of
       Some v \<Rightarrow> (Inr v, (x, v) # filter (\<lambda>p. fst p \<noteq> x) cache, tr)
     | None \<Rightarrow>
         (case f x tr of
            (Inl e, tr') \<Rightarrow> (Inl e, cache, tr')
          | (Inr v, tr') \<Rightarrow> (Inr v, (x, v) # take 127 cache, tr')))"


definition seq_filesize ::
  "transport \<Rightarrow> urllib \<Rightarrow> string \<Rightarrow> (string \<times> int) list \<times> event list \<Rightarrow>
   (exn + int) \<times> (string \<times> int) list \<times> event list" where
  "seq_filesize net lib = lru_cache (seq_filesize_wrapped net lib)"

section \<open>Reading a run\<close>

text \<open>
  The requests of a run as the server sees them (method and URL), the chunks as
  the consumer sees them with the counter \<open>downloaded\<close>, and a view of an event
  that forgets the request headers (the drawn \<open>User-Agent\<close>).
\<close>

fun sent :: "event \<Rightarrow> (string option \<times> string) list" where
  "sent (Request r) = [(req_method r, req_url r)]"
| "sent _ = []"

fun yielded :: "event \<Rightarrow> (bytes \<times> int) list" where
  "yielded (Yield chunk d) = [(chunk, d)]"
| "yielded _ = []"

definition requests :: "event list \<Rightarrow> (string option \<times> string) list" where
  "requests tr = concat (map sent tr)"

definition yields :: "event list \<Rightarrow> (bytes \<times> int) list" where
  "yields tr = concat (map yielded tr)"

fun view :: "event \<Rightarrow> event" where
  "view (Request r) = Request (r\<lparr>req_headers := []\<rparr>)"
| "view e = e"

definition get_request :: "string \<Rightarrow> nat option \<Rightarrow> event" where
  "get_request url timeout = Request \<lparr>req_url = url, req_method = Some ''GET'', req_headers = [], req_timeout = timeout\<rparr>"

section \<open>A server that follows the wire contract\<close>

definition window_url :: "string \<Rightarrow> int \<Rightarrow> int \<Rightarrow> string" where
  "window_url url a b = url @ ''&range='' @ str_int a @ ''-'' @ str_int b"

definition probe_url :: "string \<Rightarrow> string" where
  "probe_url url = url @ ''&range=0-99999999999''"

text \<open>The bytes \<open>a\<close> to \<open>b\<close> inclusive of a resource, as far as it has them.\<close>

definition slice :: "bytes \<Rightarrow> int \<Rightarrow> int \<Rightarrow> bytes" where
  "slice data a b = take (nat (min (b + 1) (int (length data)) - a)) (drop (nat a) data)"

text \<open>A body that one \<open>read()\<close> delivers whole.\<close>

definition whole :: "bytes \<Rightarrow> read list" where
  "whole bs = (if bs = [] then [] else [Data bs])"

text \<open>
  \<open>serves net url data\<close>: at any time, the transport answers a request for a byte
  window of \<open>url\<close> with exactly those bytes of \<open>data\<close>, and the oversized window
  of the probe with a \<open>Content-Length\<close> that is the size of the whole resource.
\<close>

definition serves :: "transport \<Rightarrow> string \<Rightarrow> bytes \<Rightarrow> bool" where
  "serves net url data \<longleftrightarrow>
     (\<forall>n r a b. 0 \<le> a \<and> a \<le> b \<and> req_url r = window_url url a b \<longrightarrow>
        (\<exists>resp. urlopen net n r = Inr resp \<and> resp_body resp = whole (slice data a b) \<and>
           (a = 0 \<and> b = 99999999999 \<longrightarrow>
              py_int (message_getitem (resp_info resp) ''Content-Length'') = Inr (int (length data)))))"

text \<open>
  The events of \<open>stream\<close> against such a server, written out: after the first
  turn (a window of one chunk size, the probe, the first chunk), one request and
  one chunk per turn.
\<close>

function later_events :: "string \<Rightarrow> nat option \<Rightarrow> int \<Rightarrow> bytes \<Rightarrow> int \<Rightarrow> event list" where
  "later_events url timeout C data d =
     (if 0 < C \<and> 0 \<le> d \<and> d < int (length data) then
        get_request (window_url url d (min (d + C) (int (length data)) - 1)) timeout
        # Yield (slice data d (min (d + C) (int (length data)) - 1)) (min (d + C) (int (length data)))
        # later_events url timeout C data (min (d + C) (int (length data)))
      else [])"
  by pat_completeness auto
termination
  by (relation "measure (\<lambda>(url, timeout, C, data, d). nat (int (length data) - d))") auto

declare later_events.simps [simp del]

definition stream_events :: "string \<Rightarrow> nat option \<Rightarrow> int \<Rightarrow> bytes \<Rightarrow> event list" where
  "stream_events url timeout C data =
     [get_request (window_url url 0 (C - 1)) timeout, get_request (probe_url url) timeout]
     @ (if data = [] then [] else [Yield (slice data 0 (C - 1)) (min C (int (length data)))])
     @ later_events url timeout C data (min C (int (length data)))"

subsection \<open>A small server to run against\<close>

text \<open>
  A table of resources by URL. A request for a byte window of one of them is
  answered with those bytes and their length, a request for the URL itself with
  the whole resource (a \<open>HEAD\<close> with the headers only), any other with 404.
\<close>

definition parse_window :: "string \<Rightarrow> string \<Rightarrow> (int \<times> int) option" where
  "parse_window base u =
     (let p = base @ ''&range='' in
      if take (length p) u = p then
        (let rest = drop (length p) u;
             a = takeWhile (\<lambda>c. c \<noteq> CHR ''-'') rest;
             b = drop (length a + 1) rest
         in case (int_of_str a, int_of_str b) of
              (Inr x, Inr y) \<Rightarrow> if 0 \<le> x \<and> x \<le> y then Some (x, y) else None
            | _ \<Rightarrow> None)
      else None)"

fun cdn :: "(string \<times> bytes) list \<Rightarrow> nat \<Rightarrow> request \<Rightarrow> exn + response" where
  "cdn [] n r = Inl (HTTPError 404)"
| "cdn ((u, data) # table) n r =
     (if req_url r = u then
        Inr \<lparr>resp_info = [(''Content-Length'', str_int (int (length data)))],
             resp_body = (if req_method r = Some ''HEAD'' then [] else whole data)\<rparr>
      else
        (case parse_window u (req_url r) of
           Some (a, b) \<Rightarrow>
             Inr \<lparr>resp_info = [(''Content-Length'', str_int (int (length (slice data a b))))],
                  resp_body = whole (slice data a b)\<rparr>
         | None \<Rightarrow> cdn table n r))"

definition server :: "(string \<times> bytes) list \<Rightarrow> transport" where
  "server table = \<lparr>urlopen = cdn table, choice = (\<lambda>n. n)\<rparr>"

definition scripted :: "response list \<Rightarrow> transport" where
  "scripted rs =
     \<lparr>urlopen = (\<lambda>n r. if n < length rs then Inr (rs ! n) else Inl (HTTPError 404)),
      choice = (\<lambda>n. n)\<rparr>"

text \<open>
  A transport that answers the \<open>n\<close>-th request with the \<open>n\<close>-th of the given
  bodies, always with a \<open>Content-Length\<close> that is not a number.
\<close>

definition unknown_length :: "bytes list \<Rightarrow> transport" where
  "unknown_length bodies =
     scripted (map (\<lambda>b. \<lparr>resp_info = [(''Content-Length'', ''unknown'')], resp_body = whole b\<rparr>) bodies)"

text \<open>
  The small server behind a transport whose first \<open>k\<close> requests time out.
\<close>

definition late_server :: "nat \<Rightarrow> (string \<times> bytes) list \<Rightarrow> transport" where
  "late_server k table =
     \<lparr>urlopen = (\<lambda>n r. if n < k then Inl (URLError SocketTimeout) else cdn table n r),
      choice = (\<lambda>n. n)\<rparr>"

text \<open>
  What \<open>urllib.parse\<close> does to a plain URL \<open>scheme://host/path?k=v&k=v\<close>, with
  nothing to quote and no fragment; used to run the sequential functions.
\<close>

fun split_on :: "char \<Rightarrow> string \<Rightarrow> string list" where
  "split_on sep [] = [[]]"
| "split_on sep (c # cs) =
     (if c = sep then [] # split_on sep cs
      else (case split_on sep cs of [] \<Rightarrow> [[c]] | f # fs \<Rightarrow> (c # f) # fs))"

definition plain_urlsplit :: "string \<Rightarrow> split_result" where
  "plain_urlsplit url =
     (let s = takeWhile (\<lambda>c. c \<noteq> CHR '':'') url;
          rest = drop (length s + 3) url;
          n = takeWhile (\<lambda>c. c \<noteq> CHR ''/'' \<and> c \<noteq> CHR ''?'') rest;
          rest' = drop (length n) rest;
          p = takeWhile (\<lambda>c. c \<noteq> CHR ''?'') rest';
          q = drop (length p + 1) rest'
      in \<lparr>scheme = s, netloc = n, path = p, query = q, fragment = []\<rparr>)"

definition plain_parse_qsl :: "string \<Rightarrow> (string \<times> string) list" where
  "plain_parse_qsl q =
     map (\<lambda>f. (takeWhile (\<lambda>c. c \<noteq> CHR ''='') f, drop (length (takeWhile (\<lambda>c. c \<noteq> CHR ''='') f) + 1) f))
       (filter (\<lambda>f. drop (length (takeWhile (\<lambda>c. c \<noteq> CHR ''='') f) + 1) f \<noteq> []) (split_on CHR ''&'' q))"

fun plain_urlencode :: "(string \<times> string) list \<Rightarrow> string" where
  "plain_urlencode [] = []"
| "plain_urlencode [(k, v)] = k @ ''='' @ v"
| "plain_urlencode ((k, v) # kvs) = k @ ''='' @ v @ ''&'' @ plain_urlencode kvs"

definition plain_urllib :: urllib where
  "plain_urllib = \<lparr>urlsplit = plain_urlsplit, parse_qsl = plain_parse_qsl, urlencode = plain_urlencode\<rparr>"

section \<open>Words of the specification\<close>

text \<open>The requests of the retry loop: \<open>m\<close> attempts at the same URL, from time \<open>n\<close> on.\<close>

definition attempts :: "transport \<Rightarrow> string \<Rightarrow> nat option \<Rightarrow> nat \<Rightarrow> nat \<Rightarrow> event list" where
  "attempts net u timeout n m =
     map (\<lambda>i. Request (build_request net (n + i) u (Some ''GET'') None timeout)) [0..<m]"

text \<open>The events at the end of a turn, whichever way it ends.\<close>

fun turn_events :: "turn \<Rightarrow> event list" where
  "turn_events (Stop out tr) = tr"
| "turn_events (Again file_size downloaded tr) = tr"

text \<open>The \<open>Range\<close> header of a request, looked up without regard to case.\<close>

fun range_header :: "event \<Rightarrow> string option list" where
  "range_header (Request r) = [message_getitem (req_headers r) ''Range'']"
| "range_header _ = []"

text \<open>The URL of segment \<open>k\<close> of a sequential resource.\<close>

definition segment_url :: "urllib \<Rightarrow> string \<Rightarrow> int \<Rightarrow> string" where
  "segment_url lib url k =
     base_url_of lib url @ urlencode lib (setitem ''sq'' (str_int k) (querys_of lib url))"

text \<open>
  The counts that the lines of a body declare, in the order of the lines; the
  first of them, which is the one the specification reads, and the last.
\<close>

definition declared :: "bytes list \<Rightarrow> int list" where
  "declared lines = concat (map (\<lambda>line. case segment_count_search line of
                                          None \<Rightarrow> [] | Some g \<Rightarrow> [digits_value g]) lines)"

definition first_declared :: "bytes list \<Rightarrow> int option" where
  "first_declared lines = (case declared lines of [] \<Rightarrow> None | n # ns \<Rightarrow> Some n)"

definition last_declared :: "bytes list \<Rightarrow> int option" where
  "last_declared lines = (case rev (declared lines) of [] \<Rightarrow> None | n # ns \<Rightarrow> Some n)"

text \<open>
  \<open>reports net url n\<close>: at any time, the transport answers a \<open>HEAD\<close> request for
  \<open>url\<close> with headers in which \<open>content-length\<close> reads as \<open>n\<close>.
\<close>

definition head_length :: "response \<Rightarrow> exn + int" where
  "head_length resp =
     (case dict_getitem (dict (map (\<lambda>(k, v). (lower k, v)) (resp_info resp))) ''content-length'' of
        Inl e \<Rightarrow> Inl e
      | Inr v \<Rightarrow> int_of_str v)"

definition reports :: "transport \<Rightarrow> string \<Rightarrow> int \<Rightarrow> bool" where
  "reports net url n \<longleftrightarrow>
     (\<forall>c r. req_url r = url \<and> req_method r = Some ''HEAD'' \<longrightarrow>
        (\<exists>resp. urlopen net c r = Inr resp \<and> head_length resp = Inr n))"

definition head_request :: "transport \<Rightarrow> nat \<Rightarrow> string \<Rightarrow> event" where
  "head_request net n url = Request (build_request net n url (Some ''HEAD'') None None)"

section \<open>Facts about the model\<close>

subsection \<open>Requests, and one turn of \<open>stream\<close> against a served resource\<close>

lemma default_range_size_pos: "0 < default_range_size"
  by (simp add: default_range_size_def)

lemma str_int_0: "str_int 0 = ''0''" by code_simp
lemma str_int_probe: "str_int 99999999999 = ''99999999999''" by code_simp

lemma probe_url_window: "probe_url url = window_url url 0 99999999999"
  by (simp add: probe_url_def window_url_def str_int_0 str_int_probe)

lemma lower_append: "lower (xs @ ys) = lower xs @ lower ys"
  by (simp add: lower_def)

lemma valid_append: "take 4 (lower url) = ''http'' \<Longrightarrow> take 4 (lower (url @ s)) = ''http''"
proof -
  assume a: "take 4 (lower url) = ''http''"
  then have "length (take 4 (lower url)) = 4" by simp
  then have "4 \<le> length (lower url)" by simp
  then show ?thesis using a by (simp add: lower_append)
qed

lemma execute_request_valid:
  "take 4 (lower url) = ''http'' \<Longrightarrow>
   execute_request net url m h t tr =
     (urlopen net (clock tr) (build_request net (clock tr) url m h t),
      tr @ [Request (build_request net (clock tr) url m h t)])"
  by (simp add: execute_request_def Let_def)

lemma req_url_build [simp]: "req_url (build_request net n url m h t) = url"
  by (simp add: build_request_def Let_def)

lemma view_build [simp]:
  "Request (build_request net n url (Some ''GET'') None t\<lparr>req_headers := []\<rparr>) = get_request url t"
  by (simp add: build_request_def Let_def get_request_def)

lemma clock_snoc [simp]: "clock (tr @ [Request r]) = Suc (clock tr)"
  by (simp add: clock_def)

lemma drain_whole:
  "drain (whole bs) d tr =
     (Break, d + int (length bs), tr @ (if bs = [] then [] else [Yield bs (d + int (length bs))]))"
  by (simp add: whole_def)

lemma length_slice:
  "0 \<le> a \<Longrightarrow> int (length (slice data a b)) = max 0 (min (min (b + 1) (int (length data)) - a) (int (length data) - a))"
  by (auto simp: slice_def)

lemma stream_retry_served:
  assumes "serves net url data" "take 4 (lower url) = ''http''" "0 \<le> max_retries" "0 \<le> a" "a \<le> b"
  shows "\<exists>resp r. stream_retry net url timeout max_retries a b 0 tr = (Inr resp, tr @ [Request r])
           \<and> view (Request r) = get_request (window_url url a b) timeout
           \<and> resp_body resp = whole (slice data a b)"
proof -
  let ?u = "window_url url a b"
  let ?r = "build_request net (clock tr) ?u (Some ''GET'') None timeout"
  have v: "take 4 (lower ?u) = ''http''"
    unfolding window_url_def by (rule valid_append [OF assms(2)])
  from assms(1,4,5) obtain resp where
    r: "urlopen net (clock tr) ?r = Inr resp" "resp_body resp = whole (slice data a b)"
    unfolding serves_def by (metis req_url_build)
  have "stream_retry net url timeout max_retries a b 0 tr = (Inr resp, tr @ [Request ?r])"
    using assms(3) r(1) execute_request_valid [OF v, of net "Some ''GET''" None timeout tr]
    by (subst stream_retry.simps) (simp add: window_url_def)
  then show ?thesis using r(2) by (intro exI [of _ resp] exI [of _ ?r]) simp
qed

lemma stream_loop_later:
  assumes "serves net url data" "take 4 (lower url) = ''http''" "0 \<le> max_retries" "0 < C"
  shows "0 \<le> d \<Longrightarrow> d \<le> int (length data) \<Longrightarrow> int (length data) \<noteq> C \<or> d = int (length data) \<Longrightarrow>
         \<exists>new. stream_loop net C url timeout max_retries (int (length data)) d tr = Some (Returned, tr @ new)
               \<and> map view new = later_events url timeout C data d"
proof (induction "nat (int (length data) - d)" arbitrary: d tr rule: less_induct)
  case less
  let ?S = "int (length data)"
  show ?case
  proof (cases "d < ?S")
    case False
    then show ?thesis
      by (subst stream_loop.simps, subst later_events.simps) (simp add: stream_turn_def)
  next
    case True
    let ?e = "min (d + C) ?S"
    have de: "d < ?e" "?e \<le> ?S" using True assms(4) by auto
    obtain resp r where
      r: "stream_retry net url timeout max_retries d (?e - 1) 0 tr = (Inr resp, tr @ [Request r])"
         "view (Request r) = get_request (window_url url d (?e - 1)) timeout"
         "resp_body resp = whole (slice data d (?e - 1))"
      using stream_retry_served [OF assms(1,2,3), of d "?e - 1" timeout tr] less.prems(1) de by auto
    have len: "int (length (slice data d (?e - 1))) = ?e - d"
      using length_slice [of d data "?e - 1"] less.prems(1) de by simp
    then have ne: "slice data d (?e - 1) \<noteq> []" using de by auto
    let ?tr' = "tr @ [Request r, Yield (slice data d (?e - 1)) ?e]"
    have turn: "stream_turn net C url timeout max_retries ?S d tr = Again ?S ?e ?tr'"
      using True less.prems(3) r(1,3) len ne
      by (simp add: stream_turn_def Let_def drain_whole)
    have "nat (?S - ?e) < nat (?S - d)" using de by simp
    from less.hyps [OF this, of ?tr'] less.prems de True
    obtain new where
      n: "stream_loop net C url timeout max_retries ?S ?e ?tr' = Some (Returned, ?tr' @ new)"
         "map view new = later_events url timeout C data ?e"
      by auto
    have "stream_loop net C url timeout max_retries ?S d tr
            = Some (Returned, tr @ (Request r # Yield (slice data d (?e - 1)) ?e # new))"
      using n(1) by (subst stream_loop.simps) (simp add: turn)
    moreover have "map view (Request r # Yield (slice data d (?e - 1)) ?e # new)
            = later_events url timeout C data d"
      using r(2) n(2) True less.prems(1) assms(4)
      by (subst later_events.simps) simp
    ultimately show ?thesis by blast
  qed
qed


subsection \<open>Printing and reading decimals\<close>

lemma is_digit_digit_char: "k < 10 \<Longrightarrow> is_digit (digit_char k)"
  by (simp add: is_digit_def digit_char_def)

lemma digit_val_digit_char: "k < 10 \<Longrightarrow> digit_val (digit_char k) = k"
  by (simp add: digit_val_def digit_char_def)

lemma decimal_digits: "0 \<le> n \<Longrightarrow> c \<in> set (decimal n) \<Longrightarrow> is_digit c"
proof (induction n arbitrary: c rule: decimal.induct)
  case (1 n)
  show ?case
  proof (cases "n < 10")
    case True
    with "1.prems" show ?thesis
      by (subst (asm) decimal.simps) (auto intro: is_digit_digit_char)
  next
    case False
    with "1.prems" have "c \<in> set (decimal (n div 10)) \<or> c = digit_char (nat (n mod 10))"
      by (subst (asm) decimal.simps) auto
    then show ?thesis
    proof
      assume "c \<in> set (decimal (n div 10))"
      then show ?thesis using "1.IH" [OF False] "1.prems"(1) by simp
    next
      assume "c = digit_char (nat (n mod 10))"
      then show ?thesis by (simp add: is_digit_digit_char)
    qed
  qed
qed

lemma decimal_nonempty: "decimal n \<noteq> []"
  by (subst decimal.simps) simp

lemma digits_value_snoc: "digits_value (ds @ [c]) = 10 * digits_value ds + int (digit_val c)"
  by (simp add: digits_value_def)

lemma digits_value_decimal: "0 \<le> n \<Longrightarrow> digits_value (decimal n) = n"
proof (induction n rule: decimal.induct)
  case (1 n)
  show ?case
  proof (cases "n < 10")
    case True
    with "1.prems" show ?thesis
      by (subst decimal.simps) (simp add: digits_value_def digit_val_digit_char)
  next
    case False
    then have "digits_value (decimal (n div 10)) = n div 10"
      using "1.IH" "1.prems" by simp
    with False "1.prems" show ?thesis
      by (subst decimal.simps) (simp add: digits_value_snoc digit_val_digit_char)
  qed
qed

lemma no_double_underscore: "CHR ''_'' \<notin> set s \<Longrightarrow> \<not> double_underscore s"
  by (induction s rule: double_underscore.induct) auto

lemma is_digit_not_underscore: "is_digit c \<Longrightarrow> c \<noteq> CHR ''_''"
  by (auto simp: is_digit_def)

lemma is_digit_not_space: "is_digit c \<Longrightarrow> \<not> is_space c"
  by (auto simp: is_digit_def is_space_def)

lemma is_digit_not_sign: "is_digit c \<Longrightarrow> c \<noteq> CHR ''-'' \<and> c \<noteq> CHR ''+''"
  by (auto simp: is_digit_def)

lemma strip_digits: "\<forall>c\<in>set s. is_digit c \<Longrightarrow> strip s = s"
proof -
  assume a: "\<forall>c\<in>set s. is_digit c"
  have d: "\<And>xs. \<forall>c\<in>set xs. is_digit c \<Longrightarrow> dropWhile is_space xs = xs"
    by (case_tac xs) (auto dest: is_digit_not_space)
  show ?thesis using a by (simp add: strip_def d)
qed

lemma parse_digits_digits:
  "s \<noteq> [] \<Longrightarrow> \<forall>c\<in>set s. is_digit c \<Longrightarrow> parse_digits s = Some (digits_value s)"
proof -
  assume ne: "s \<noteq> []" and a: "\<forall>c\<in>set s. is_digit c"
  have u: "CHR ''_'' \<notin> set s" using a is_digit_not_underscore by blast
  have h: "hd s \<noteq> CHR ''_''" "last s \<noteq> CHR ''_''" using ne u by (metis hd_in_set, metis last_in_set)
  have f: "filter is_digit s = s" using a by simp
  have e: "\<not> list_ex (\<lambda>c. \<not> is_digit c \<and> c \<noteq> CHR ''_'') s" using a by (simp add: list_ex_iff)
  show ?thesis using ne h f e no_double_underscore [OF u] by (simp add: parse_digits_def)
qed

lemma int_of_str_digits:
  "s \<noteq> [] \<Longrightarrow> \<forall>c\<in>set s. is_digit c \<Longrightarrow> int_of_str s = Inr (digits_value s)"
proof -
  assume ne: "s \<noteq> []" and a: "\<forall>c\<in>set s. is_digit c"
  have "is_digit (hd s)" using ne a by simp
  then have "hd s \<noteq> CHR ''-''" "hd s \<noteq> CHR ''+''" using is_digit_not_sign by blast+
  then show ?thesis using ne a
    by (simp add: int_of_str_def Let_def strip_digits parse_digits_digits)
qed

lemma int_of_str_decimal: "0 \<le> n \<Longrightarrow> int_of_str (decimal n) = Inr n"
  using int_of_str_digits [of "decimal n"] decimal_digits [of n] decimal_nonempty [of n]
  by (simp add: digits_value_decimal)

lemma int_of_str_str_int: "0 \<le> n \<Longrightarrow> int_of_str (str_int n) = Inr n"
  by (simp add: str_int_def int_of_str_decimal)


subsection \<open>\<open>stream\<close> against a served resource\<close>

lemma probe_served:
  assumes "serves net url data" "take 4 (lower url) = ''http''"
  shows "\<exists>r. probe net url timeout file_size tr = (Inr (int (length data)), tr @ [Request r])
           \<and> view (Request r) = get_request (probe_url url) timeout"
proof -
  let ?u = "probe_url url"
  let ?r = "build_request net (clock tr) ?u (Some ''GET'') None timeout"
  have v: "take 4 (lower ?u) = ''http''"
    unfolding probe_url_def by (rule valid_append [OF assms(2)])
  have "req_url ?r = window_url url 0 99999999999" by (simp add: probe_url_window)
  with assms(1) obtain resp where
    r: "urlopen net (clock tr) ?r = Inr resp"
       "py_int (message_getitem (resp_info resp) ''Content-Length'') = Inr (int (length data))"
    unfolding serves_def by (metis linorder_le_cases not_numeral_le_zero)
  have "probe net url timeout file_size tr = (Inr (int (length data)), tr @ [Request ?r])"
    using r execute_request_valid [OF v, of net "Some ''GET''" None timeout tr]
    by (simp add: probe_def probe_url_def)
  then show ?thesis by (intro exI [of _ ?r]) simp
qed

lemma stream_served:
  assumes "serves net url data" "take 4 (lower url) = ''http''" "0 \<le> max_retries" "0 < C"
  shows "\<exists>new. stream net C url timeout max_retries tr = Some (Returned, tr @ new)
           \<and> map view new = stream_events url timeout C data"
proof -
  let ?S = "int (length data)"
  let ?c = "slice data 0 (C - 1)"
  let ?d = "min C ?S"
  obtain resp r where
    r: "stream_retry net url timeout max_retries 0 (C - 1) 0 tr = (Inr resp, tr @ [Request r])"
       "view (Request r) = get_request (window_url url 0 (C - 1)) timeout"
       "resp_body resp = whole ?c"
    using stream_retry_served [OF assms(1,2,3), of 0 "C - 1" timeout tr] assms(4) by auto
  obtain p where
    p: "probe net url timeout C (tr @ [Request r]) = (Inr ?S, (tr @ [Request r]) @ [Request p])"
       "view (Request p) = get_request (probe_url url) timeout"
    using probe_served [OF assms(1,2), of timeout C "tr @ [Request r]"] by auto
  have len: "int (length ?c) = ?d"
    using length_slice [of 0 data "C - 1"] assms(4) by simp
  let ?y = "if data = [] then [] else [Yield ?c ?d]"
  have "(length ?c = 0) = (length data = 0)" using len assms(4) by arith
  then have ce: "(?c = []) = (data = [])" by simp
  let ?tr' = "tr @ [Request r, Request p] @ ?y"
  have turn: "stream_turn net C url timeout max_retries C 0 tr = Again ?S ?d ?tr'"
    using assms(4) r(1,3) p(1) len ce
    by (simp add: stream_turn_def Let_def drain_whole)
  have "?S \<noteq> C \<or> ?d = ?S" by auto
  from stream_loop_later [OF assms, of ?d timeout ?tr'] this assms(4)
  obtain new where
    n: "stream_loop net C url timeout max_retries ?S ?d ?tr' = Some (Returned, ?tr' @ new)"
       "map view new = later_events url timeout C data ?d"
    by auto
  have "stream net C url timeout max_retries tr = Some (Returned, tr @ ([Request r, Request p] @ ?y @ new))"
    using n(1) unfolding stream_def by (subst stream_loop.simps) (simp add: turn)
  moreover have "map view ([Request r, Request p] @ ?y @ new) = stream_events url timeout C data"
    using r(2) p(2) n(2) by (simp add: stream_events_def)
  ultimately show ?thesis by blast
qed


lemma yields_view [simp]: "yields (map view tr) = yields tr"
proof (induction tr)
  case Nil
  show ?case by simp
next
  case (Cons e tr)
  then show ?case by (cases e) (simp_all add: yields_def)
qed

lemma requests_view [simp]: "requests (map view tr) = requests tr"
proof (induction tr)
  case Nil
  show ?case by simp
next
  case (Cons e tr)
  then show ?case by (cases e) (simp_all add: requests_def)
qed

lemma yields_simps [simp]:
  "yields [] = []"
  "yields (Yield c d # tr) = (c, d) # yields tr"
  "yields (get_request u t # tr) = yields tr"
  "yields (tr @ tr') = yields tr @ yields tr'"
  by (simp_all add: yields_def get_request_def)

lemma requests_simps [simp]:
  "requests [] = []"
  "requests (Yield c d # tr) = requests tr"
  "requests (get_request u t # tr) = (Some ''GET'', u) # requests tr"
  "requests (tr @ tr') = requests tr @ requests tr'"
  by (simp_all add: requests_def get_request_def)

lemma slice_take_drop:
  "0 \<le> d \<Longrightarrow> d \<le> e \<Longrightarrow> e \<le> int (length data) \<Longrightarrow>
   slice data d (e - 1) = take (nat (e - d)) (drop (nat d) data)"
  by (simp add: slice_def)

lemma later_events_yields:
  assumes "0 < C"
  shows "0 \<le> d \<Longrightarrow> d \<le> int (length data) \<Longrightarrow>
     concat (map fst (yields (later_events url timeout C data d))) = drop (nat d) data
     \<and> sorted_wrt (<) (map snd (yields (later_events url timeout C data d)))
     \<and> (\<forall>y\<in>set (yields (later_events url timeout C data d)). fst y \<noteq> [] \<and> d < snd y \<and> snd y \<le> int (length data))
     \<and> (C dvd (int (length data) - d) \<longrightarrow>
          int (length (yields (later_events url timeout C data d))) = (int (length data) - d) div C)"
proof (induction "nat (int (length data) - d)" arbitrary: d rule: less_induct)
  case less
  let ?S = "int (length data)"
  show ?case
  proof (cases "d < ?S")
    case False
    then show ?thesis using less.prems by (subst (1 2 3 4) later_events.simps) simp
  next
    case True
    let ?e = "min (d + C) ?S"
    let ?c = "slice data d (?e - 1)"
    let ?ys = "yields (later_events url timeout C data ?e)"
    have de: "d < ?e" "?e \<le> ?S" using True assms by auto
    have unf: "yields (later_events url timeout C data d) = (?c, ?e) # ?ys"
      using True less.prems(1) assms by (subst later_events.simps) simp
    have c: "?c = take (nat (?e - d)) (drop (nat d) data)"
      using slice_take_drop [of d ?e data] less.prems(1) de by simp
    have cne: "?c \<noteq> []" using c de less.prems by auto
    have "nat (?S - ?e) < nat (?S - d)" using de by simp
    from less.hyps [OF this] less.prems de
    have ih: "concat (map fst ?ys) = drop (nat ?e) data"
         "sorted_wrt (<) (map snd ?ys)"
         "\<forall>y\<in>set ?ys. fst y \<noteq> [] \<and> ?e < snd y \<and> snd y \<le> ?S"
         "C dvd (?S - ?e) \<longrightarrow> int (length ?ys) = (?S - ?e) div C"
      by auto
    have "nat (?e - d) + nat d = nat ?e" using less.prems(1) de by linarith
    then have "drop (nat ?e) data = drop (nat (?e - d)) (drop (nat d) data)"
      by (simp only: drop_drop)
    then have "?c @ drop (nat ?e) data = drop (nat d) data"
      by (simp only: c append_take_drop_id)
    then have 1: "concat (map fst ((?c, ?e) # ?ys)) = drop (nat d) data"
      using ih(1) by simp
    have 2: "sorted_wrt (<) (map snd ((?c, ?e) # ?ys))" using ih(2,3) by auto
    have 3: "\<forall>y\<in>set ((?c, ?e) # ?ys). fst y \<noteq> [] \<and> d < snd y \<and> snd y \<le> ?S"
      using ih(3) cne de by auto
    have 4: "C dvd (?S - d) \<longrightarrow> int (length ((?c, ?e) # ?ys)) = (?S - d) div C"
    proof
      assume dv: "C dvd (?S - d)"
      then obtain k where k: "?S - d = C * k" by (auto simp: dvd_def)
      have kp: "1 \<le> k" using k True assms by (smt (verit) mult_le_0_iff)
      then have "C \<le> C * k" using assms by simp
      then have e: "?e = d + C" using k by simp
      then have "?S - ?e = C * (k - 1)" using k by (simp add: algebra_simps)
      then have "int (length ?ys) = k - 1" using ih(4) assms by simp
      then show "int (length ((?c, ?e) # ?ys)) = (?S - d) div C" using k assms by simp
    qed
    show ?thesis unfolding unf using 1 2 3 4 by blast
  qed
qed


lemma stream_events_yields:
  assumes "0 < C"
  shows "concat (map fst (yields (stream_events url timeout C data))) = data
     \<and> sorted_wrt (<) (map snd (yields (stream_events url timeout C data)))
     \<and> (\<forall>y\<in>set (yields (stream_events url timeout C data)). fst y \<noteq> [])
     \<and> (C dvd int (length data) \<longrightarrow>
          int (length (yields (stream_events url timeout C data))) = int (length data) div C)"
proof -
  let ?S = "int (length data)"
  let ?d = "min C ?S"
  let ?c = "slice data 0 (C - 1)"
  let ?ys = "yields (later_events url timeout C data ?d)"
  let ?y = "if data = [] then [] else [(?c, ?d)]"
  have d: "0 \<le> ?d" "?d \<le> ?S" using assms by auto
  from later_events_yields [OF assms d, of url timeout]
  have l: "concat (map fst ?ys) = drop (nat ?d) data"
       "sorted_wrt (<) (map snd ?ys)"
       "\<forall>y\<in>set ?ys. fst y \<noteq> [] \<and> ?d < snd y \<and> snd y \<le> ?S"
       "C dvd (?S - ?d) \<longrightarrow> int (length ?ys) = (?S - ?d) div C"
    by auto
  have unf: "yields (stream_events url timeout C data) = ?y @ ?ys"
    by (simp add: stream_events_def)
  have c: "?c = take (nat ?d) data"
    using slice_take_drop [of 0 ?d data] d assms by (simp add: slice_def)
  have cne: "data \<noteq> [] \<Longrightarrow> ?c \<noteq> []"
  proof -
    assume "data \<noteq> []"
    then have "0 < nat ?d" using assms by (cases data) auto
    then show "?c \<noteq> []" using \<open>data \<noteq> []\<close> unfolding c by (cases "nat ?d") auto
  qed
  have 1: "concat (map fst (?y @ ?ys)) = data" using l(1) c by auto
  have 2: "sorted_wrt (<) (map snd (?y @ ?ys))" using l(2,3) by (auto simp: sorted_wrt_append)
  have 3: "\<forall>y\<in>set (?y @ ?ys). fst y \<noteq> []" using l(3) cne by auto
  have 4: "C dvd ?S \<longrightarrow> int (length (?y @ ?ys)) = ?S div C"
  proof
    assume dv: "C dvd ?S"
    show "int (length (?y @ ?ys)) = ?S div C"
    proof (cases "data = []")
      case True
      then show ?thesis using l(4) assms by simp
    next
      case False
      then have "0 < ?S" by simp
      with dv assms have cs: "C \<le> ?S" by (simp add: zdvd_imp_le)
      then have "?d = C" by simp
      moreover have "C dvd (?S - C)" using dv by simp
      moreover have "(?S - C) div C = ?S div C - 1"
      proof -
        from dv obtain k where k: "?S = C * k" by (auto simp: dvd_def)
        then have "?S - C = C * (k - 1)" by (simp add: algebra_simps)
        then show ?thesis using k assms by simp
      qed
      ultimately have "int (length ?ys) = ?S div C - 1" using l(4) by simp
      then show ?thesis using False by simp
    qed
  qed
  show ?thesis unfolding unf using 1 2 3 4 by blast
qed

subsection \<open>The small server follows the wire contract\<close>

lemma message_getitem_single: "message_getitem [(k, v)] k = Some v"
  by (simp add: message_getitem_def)

lemma takeWhile_decimal:
  "0 \<le> a \<Longrightarrow> takeWhile (\<lambda>c. c \<noteq> CHR ''-'') (decimal a @ CHR ''-'' # s) = decimal a"
  using decimal_digits [of a] is_digit_not_sign by (subst takeWhile_append2) auto

lemma parse_window_window:
  "0 \<le> a \<Longrightarrow> a \<le> b \<Longrightarrow> parse_window u (window_url u a b) = Some (a, b)"
  by (simp add: parse_window_def window_url_def str_int_def Let_def takeWhile_decimal int_of_str_decimal)

lemma length_window_url: "length u < length (window_url u a b)"
  by (simp add: window_url_def)

lemma parse_window_other:
  "length u' = length u \<Longrightarrow> u' \<noteq> u \<Longrightarrow> parse_window u' (window_url u a b) = None"
  by (simp add: parse_window_def window_url_def)

lemma cdn_window:
  "(u, data) \<in> set table \<Longrightarrow> distinct (map fst table) \<Longrightarrow> \<forall>p\<in>set table. length (fst p) = length u \<Longrightarrow>
   0 \<le> a \<Longrightarrow> a \<le> b \<Longrightarrow> req_url r = window_url u a b \<Longrightarrow>
   cdn table n r = Inr \<lparr>resp_info = [(''Content-Length'', str_int (int (length (slice data a b))))],
                         resp_body = whole (slice data a b)\<rparr>"
proof (induction table)
  case Nil
  then show ?case by simp
next
  case (Cons p table)
  obtain u' d' where p: "p = (u', d')" by (cases p)
  have ne: "req_url r \<noteq> u'"
    using Cons.prems(3,6) length_window_url [of u a b] p by auto
  show ?case
  proof (cases "u' = u")
    case True
    then have "d' = data" using Cons.prems(1,2) p by (auto simp: rev_image_eqI)
    then show ?thesis using True p ne Cons.prems(4,5,6) by (simp add: parse_window_window)
  next
    case False
    then have "(u, data) \<in> set table" using Cons.prems(1) p by auto
    moreover have "parse_window u' (req_url r) = None"
      using False Cons.prems(3,6) p by (simp add: parse_window_other)
    ultimately show ?thesis using Cons p ne by simp
  qed
qed

lemma serves_server:
  assumes "(u, data) \<in> set table" "distinct (map fst table)" "\<forall>p\<in>set table. length (fst p) = length u"
    "int (length data) \<le> 100000000000"
  shows "serves (server table) u data"
proof -
  have "slice data 0 99999999999 = data" using assms(4) by (simp add: slice_def)
  then show ?thesis
    unfolding serves_def server_def
    using cdn_window [OF assms(1,2,3)]
    by (auto simp: message_getitem_single py_int_def int_of_str_str_int)
qed

subsection \<open>Chunk size 10, 25 bytes\<close>

lemma str_int_small:
  "str_int 9 = ''9''" "str_int 10 = ''10''" "str_int 19 = ''19''" "str_int 20 = ''20''" "str_int 24 = ''24''"
  by code_simp+

lemma stream_events_25:
  assumes "length data = 25"
  shows "stream_events url timeout 10 data =
     [get_request (url @ ''&range=0-9'') timeout,
      get_request (url @ ''&range=0-99999999999'') timeout,
      Yield (take 10 data) 10,
      get_request (url @ ''&range=10-19'') timeout,
      Yield (take 10 (drop 10 data)) 20,
      get_request (url @ ''&range=20-24'') timeout,
      Yield (drop 20 data) 25]"
proof -
  have ne: "data \<noteq> []" using assms by auto
  have 3: "later_events url timeout 10 data 25 = []"
    using assms by (subst later_events.simps) simp
  have 2: "later_events url timeout 10 data 20 =
      [get_request (url @ ''&range=20-24'') timeout, Yield (drop 20 data) 25]"
    using assms 3 by (subst later_events.simps) (simp add: window_url_def slice_def str_int_small)
  have 1: "later_events url timeout 10 data 10 =
      [get_request (url @ ''&range=10-19'') timeout, Yield (take 10 (drop 10 data)) 20,
       get_request (url @ ''&range=20-24'') timeout, Yield (drop 20 data) 25]"
    using assms 2 by (subst later_events.simps) (simp add: window_url_def slice_def str_int_small)
  show ?thesis
    using assms ne 1
    by (simp add: stream_events_def window_url_def probe_url_def slice_def str_int_small str_int_0)
qed

subsection \<open>The retry loop\<close>

lemma attempts_0 [simp]: "attempts net u timeout n 0 = []"
  by (simp add: attempts_def)

lemma attempts_Suc:
  "attempts net u timeout n (Suc m) =
     Request (build_request net n u (Some ''GET'') None timeout) # attempts net u timeout (Suc n) m"
proof -
  have "[0..<Suc m] = 0 # map Suc [0..<m]" by (simp add: upt_conv_Cons map_Suc_upt del: upt_Suc)
  then show ?thesis by (simp add: attempts_def comp_def del: upt_Suc)
qed

lemma length_attempts [simp]: "length (attempts net u timeout n m) = m"
  by (simp add: attempts_def)

lemma stream_retry_step:
  assumes "take 4 (lower url) = ''http''" "tries < 1 + max_retries"
  shows "stream_retry net url timeout max_retries d sp tries tr =
     (let r = build_request net (clock tr) (window_url url d sp) (Some ''GET'') None timeout
      in case urlopen net (clock tr) r of
           Inr response \<Rightarrow> (Inr response, tr @ [Request r])
         | Inl e \<Rightarrow> if swallowed e
                    then stream_retry net url timeout max_retries d sp (tries + 1) (tr @ [Request r])
                    else (Inl e, tr @ [Request r]))"
proof -
  have v: "take 4 (lower (window_url url d sp)) = ''http''"
    unfolding window_url_def by (rule valid_append [OF assms(1)])
  show ?thesis
    using assms(2) execute_request_valid [OF v, of net "Some ''GET''" None timeout tr]
    by (subst stream_retry.simps) (simp add: window_url_def Let_def split: sum.splits)
qed

lemma stream_retry_exhausted:
  assumes "take 4 (lower url) = ''http''"
  shows "\<forall>i<m. urlopen net (clock tr + i)
              (build_request net (clock tr + i) (window_url url d sp) (Some ''GET'') None timeout)
            = Inl (URLError SocketTimeout) \<Longrightarrow>
         tries + int m = 1 + max_retries \<Longrightarrow>
         stream_retry net url timeout max_retries d sp tries tr =
           (Inl MaxRetriesExceeded, tr @ attempts net (window_url url d sp) timeout (clock tr) m)"
proof (induction m arbitrary: tries tr)
  case 0
  then show ?case by (subst stream_retry.simps) simp
next
  case (Suc m)
  let ?r = "build_request net (clock tr) (window_url url d sp) (Some ''GET'') None timeout"
  have t: "urlopen net (clock tr) ?r = Inl (URLError SocketTimeout)"
    using Suc.prems(1) [rule_format, of 0] by simp
  have "\<forall>i<m. urlopen net (clock (tr @ [Request ?r]) + i)
           (build_request net (clock (tr @ [Request ?r]) + i) (window_url url d sp) (Some ''GET'') None timeout)
         = Inl (URLError SocketTimeout)"
    using Suc.prems(1) by (auto dest: spec [of _ "Suc i" for i])
  from Suc.IH [OF this, of "tries + 1"] Suc.prems(2)
  have "stream_retry net url timeout max_retries d sp (tries + 1) (tr @ [Request ?r]) =
          (Inl MaxRetriesExceeded, tr @ attempts net (window_url url d sp) timeout (clock tr) (Suc m))"
    by (simp add: attempts_Suc)
  moreover have "tries < 1 + max_retries" using Suc.prems(2) by simp
  ultimately show ?case
    using t by (subst stream_retry_step [OF assms]) (simp_all add: Let_def)
qed

lemma stream_retry_succeeds:
  assumes "take 4 (lower url) = ''http''"
  shows "\<forall>i<k. urlopen net (clock tr + i)
              (build_request net (clock tr + i) (window_url url d sp) (Some ''GET'') None timeout)
            = Inl (URLError SocketTimeout) \<Longrightarrow>
         urlopen net (clock tr + k)
              (build_request net (clock tr + k) (window_url url d sp) (Some ''GET'') None timeout)
            = Inr resp \<Longrightarrow>
         tries + int k < 1 + max_retries \<Longrightarrow>
         stream_retry net url timeout max_retries d sp tries tr =
           (Inr resp, tr @ attempts net (window_url url d sp) timeout (clock tr) (Suc k))"
proof (induction k arbitrary: tries tr)
  case 0
  then show ?case
    by (subst stream_retry_step [OF assms]) (simp_all add: Let_def attempts_Suc)
next
  case (Suc k)
  let ?r = "build_request net (clock tr) (window_url url d sp) (Some ''GET'') None timeout"
  have t: "urlopen net (clock tr) ?r = Inl (URLError SocketTimeout)"
    using Suc.prems(1) [rule_format, of 0] by simp
  have 1: "\<forall>i<k. urlopen net (clock (tr @ [Request ?r]) + i)
           (build_request net (clock (tr @ [Request ?r]) + i) (window_url url d sp) (Some ''GET'') None timeout)
         = Inl (URLError SocketTimeout)"
    using Suc.prems(1) by (auto dest: spec [of _ "Suc i" for i])
  have 2: "urlopen net (clock (tr @ [Request ?r]) + k)
           (build_request net (clock (tr @ [Request ?r]) + k) (window_url url d sp) (Some ''GET'') None timeout)
         = Inr resp"
    using Suc.prems(2) by simp
  from Suc.IH [OF 1 2, of "tries + 1"] Suc.prems(3)
  have "stream_retry net url timeout max_retries d sp (tries + 1) (tr @ [Request ?r]) =
          (Inr resp, tr @ attempts net (window_url url d sp) timeout (clock tr) (Suc (Suc k)))"
    by (simp add: attempts_Suc [of _ _ _ "clock tr"])
  moreover have "tries < 1 + max_retries" using Suc.prems(3) by simp
  ultimately show ?case
    using t by (subst stream_retry_step [OF assms]) (simp_all add: Let_def)
qed

lemma stream_loop_raises:
  assumes "stream_retry net url timeout max_retries d (min (d + C) fs - 1) 0 tr = (Inl e, tr')" "d < fs"
  shows "stream_loop net C url timeout max_retries fs d tr = Some (Raised e, tr')"
  using assms by (subst stream_loop.simps) (simp add: stream_turn_def Let_def)

subsection \<open>What a turn sends\<close>

lemma build_request_plain:
  "build_request net n u m None t =
     \<lparr>req_url = u, req_method = m,
      req_headers = [(''User-Agent'', user_agents ! (choice net n mod length user_agents)),
                     (''accept-language'', ''en-US,en'')],
      req_timeout = t\<rparr>"
  by (simp add: build_request_def Let_def)

lemma lower_literals:
  "lower ''Range'' = ''range''" "lower ''User-Agent'' = ''user-agent''"
  "lower ''accept-language'' = ''accept-language''"
  by code_simp+

lemma no_range_header:
  "message_getitem (req_headers (build_request net n u m None t)) ''Range'' = None"
  by (simp add: build_request_plain message_getitem_def lower_literals)

lemma header_names_build:
  "map fst (req_headers (build_request net n u m None t)) = [''User-Agent'', ''accept-language'']"
  by (simp add: build_request_plain)

lemma req_method_build [simp]: "req_method (build_request net n u m h t) = m"
  by (simp add: build_request_def Let_def)

lemma set_attempts:
  "e \<in> set (attempts net u t n m) \<Longrightarrow>
   \<exists>r. e = Request r \<and> req_url r = u \<and> req_method r = Some ''GET''
       \<and> map fst (req_headers r) = [''User-Agent'', ''accept-language'']
       \<and> message_getitem (req_headers r) ''Range'' = None"
  by (auto simp: attempts_def no_range_header header_names_build)

lemma clock_append_attempts [simp]: "clock (tr @ attempts net u t n m) = clock tr + m"
  by (simp add: clock_def attempts_def filter_map comp_def)

lemma stream_retry_attempts:
  "take 4 (lower url) = ''http'' \<Longrightarrow>
   \<exists>m. snd (stream_retry net url timeout max_retries d sp tries tr)
               = tr @ attempts net (window_url url d sp) timeout (clock tr) m
             \<and> (tries < 1 + max_retries \<longrightarrow> 0 < m)"
proof (induction net url timeout max_retries d sp tries tr rule: stream_retry.induct)
  case (1 net url timeout max_retries d sp tries tr)
  show ?case
  proof (cases "tries < 1 + max_retries")
    case False
    then have "snd (stream_retry net url timeout max_retries d sp tries tr) = tr"
      by (subst stream_retry.simps) simp
    then show ?thesis using False by (intro exI [of _ 0]) simp
  next
    case True
    let ?r = "build_request net (clock tr) (window_url url d sp) (Some ''GET'') None timeout"
    let ?tr = "tr @ [Request ?r]"
    have v: "take 4 (lower (window_url url d sp)) = ''http''"
      unfolding window_url_def by (rule valid_append [OF "1.prems"])
    have ex: "execute_request net (url @ ''&range='' @ str_int d @ ''-'' @ str_int sp)
                 (Some ''GET'') None timeout tr = (urlopen net (clock tr) ?r, ?tr)"
      using execute_request_valid [OF v, of net "Some ''GET''" None timeout tr]
      by (simp add: window_url_def)
    have one: "?tr = tr @ attempts net (window_url url d sp) timeout (clock tr) 1"
      by (simp add: attempts_def)
    show ?thesis
    proof (cases "urlopen net (clock tr) ?r")
      case (Inr resp)
      then have "snd (stream_retry net url timeout max_retries d sp tries tr) = ?tr"
        using True ex by (subst stream_retry.simps) simp
      then show ?thesis using one by (intro exI [of _ 1]) simp
    next
      case (Inl e)
      show ?thesis
      proof (cases "swallowed e")
        case False
        then have "snd (stream_retry net url timeout max_retries d sp tries tr) = ?tr"
          using True ex Inl by (subst stream_retry.simps) simp
        then show ?thesis using one by (intro exI [of _ 1]) simp
      next
        case sw: True
        have "\<not> 1 + max_retries \<le> tries" using True by simp
        from "1.IH" [OF this ex [symmetric] Inl sw "1.prems"]
        obtain m where
          m: "snd (stream_retry net url timeout max_retries d sp (tries + 1) ?tr)
                = ?tr @ attempts net (window_url url d sp) timeout (clock ?tr) m"
          by auto
        have "snd (stream_retry net url timeout max_retries d sp tries tr)
                = snd (stream_retry net url timeout max_retries d sp (tries + 1) ?tr)"
          using True ex Inl sw by (subst stream_retry.simps) simp
        also have "\<dots> = tr @ attempts net (window_url url d sp) timeout (clock tr) (Suc m)"
          using m by (simp add: attempts_Suc)
        finally show ?thesis by (intro exI [of _ "Suc m"]) simp
      qed
    qed
  qed
qed

lemma probe_appends: "\<exists>rest. snd (probe net url timeout fs tr) = tr @ rest"
  by (auto simp: probe_def execute_request_def Let_def split: prod.splits sum.splits)

lemma drain_appends: "\<exists>rest. snd (snd (drain rs d tr)) = tr @ rest"
proof (induction rs d tr rule: drain.induct)
  case (3 chunk rs downloaded tr)
  then show ?case by (cases "chunk = []") auto
qed simp_all

lemma stream_turn_starts:
  assumes "take 4 (lower url) = ''http''" "0 \<le> max_retries" "d < fs"
  shows "\<exists>m rest. 0 < m \<and>
           turn_events (stream_turn net C url timeout max_retries fs d tr)
             = tr @ attempts net (window_url url d (min (d + C) fs - 1)) timeout (clock tr) m @ rest"
proof -
  let ?sp = "min (d + C) fs - 1"
  let ?u = "window_url url d ?sp"
  obtain x tr1 where x: "stream_retry net url timeout max_retries d ?sp 0 tr = (x, tr1)"
    by (cases "stream_retry net url timeout max_retries d ?sp 0 tr")
  from stream_retry_attempts [OF assms(1), of net timeout max_retries d ?sp 0 tr] assms(2) x
  obtain m where m: "tr1 = tr @ attempts net ?u timeout (clock tr) m" "0 < m" by auto
  show ?thesis
  proof (cases x)
    case (Inl e)
    then have "turn_events (stream_turn net C url timeout max_retries fs d tr) = tr1"
      using assms(3) x by (simp add: stream_turn_def Let_def)
    then show ?thesis using m by (intro exI [of _ m] exI [of _ "[]"]) simp
  next
    case (Inr response)
    let ?p = "if fs = C then probe net url timeout fs tr1 else (Inr fs, tr1)"
    obtain y tr2 where y: "?p = (y, tr2)" by (cases ?p)
    obtain r2 where r2: "tr2 = tr1 @ r2"
      using y probe_appends [of net url timeout fs tr1] by (auto split: if_splits)
    show ?thesis
    proof (cases y)
      case (Inl e)
      then have "turn_events (stream_turn net C url timeout max_retries fs d tr) = tr2"
        using assms(3) x y Inr by (simp add: stream_turn_def Let_def)
      then show ?thesis using m r2 by (intro exI [of _ m] exI [of _ r2]) simp
    next
      case fs': (Inr file_size')
      obtain k d' tr3 where k: "drain (resp_body response) d tr2 = (k, d', tr3)"
        by (cases "drain (resp_body response) d tr2")
      obtain r3 where r3: "tr3 = tr2 @ r3"
        using k drain_appends [of "resp_body response" d tr2] by auto
      have "turn_events (stream_turn net C url timeout max_retries fs d tr) = tr3"
        using assms(3) x y Inr fs' k by (cases k) (simp_all add: stream_turn_def Let_def)
      then show ?thesis using m r2 r3 by (intro exI [of _ m] exI [of _ "r2 @ r3"]) simp
    qed
  qed
qed

lemma probe_swallows:
  assumes "take 4 (lower url) = ''http''"
    and "(case urlopen net (clock tr) (build_request net (clock tr) (probe_url url) (Some ''GET'') None timeout) of
            Inl e \<Rightarrow> Inl e
          | Inr resp \<Rightarrow> py_int (message_getitem (resp_info resp) ''Content-Length'')) = Inl e"
    and "e = KeyError \<or> e = IndexError \<or> e = ValueError"
  shows "probe net url timeout file_size tr =
           (Inr file_size,
            tr @ [Request (build_request net (clock tr) (probe_url url) (Some ''GET'') None timeout),
                  LogError e])"
proof -
  have v: "take 4 (lower (probe_url url)) = ''http''"
    unfolding probe_url_def by (rule valid_append [OF assms(1)])
  show ?thesis
    using assms(2,3) execute_request_valid [OF v, of net "Some ''GET''" None timeout tr]
    by (auto simp: probe_def probe_url_def)
qed

subsection \<open>The scan for the segment count\<close>

lemma segment_count_search_digits:
  "segment_count_search line = Some g \<Longrightarrow> g \<noteq> [] \<and> (\<forall>c\<in>set g. is_digit c)"
proof (induction line rule: segment_count_search.induct)
  case 1
  then show ?case by simp
next
  case (2 c cs)
  then show ?case by (auto split: if_splits dest: set_takeWhileD)
qed

lemma int_of_str_search:
  "segment_count_search line = Some g \<Longrightarrow> int_of_str g = Inr (digits_value g)"
  using segment_count_search_digits [of line g] int_of_str_digits [of g] by simp

lemma declared_Cons:
  "declared (line # lines) =
     (case segment_count_search line of None \<Rightarrow> [] | Some g \<Rightarrow> [digits_value g]) @ declared lines"
  by (simp add: declared_def)

lemma declared_Nil [simp]: "declared [] = []"
  by (simp add: declared_def)

lemma last_declared_last:
  "last_declared lines = (if declared lines = [] then None else Some (last (declared lines)))"
  by (cases "declared lines" rule: rev_cases) (simp_all add: last_declared_def)

lemma scan_stream_info_fold:
  "scan_stream_info lines acc = Inr (foldl (\<lambda>a n. Some n) acc (declared lines))"
proof (induction lines arbitrary: acc)
  case Nil
  show ?case by simp
next
  case (Cons line lines)
  show ?case
  proof (cases "segment_count_search line")
    case None
    then show ?thesis using Cons by (simp add: declared_Cons)
  next
    case (Some g)
    then show ?thesis using Cons int_of_str_search [OF Some] by (simp add: declared_Cons)
  qed
qed

lemma foldl_keep_last: "foldl (\<lambda>a n. f n) acc ns = (if ns = [] then acc else f (last ns))"
  by (induction ns arbitrary: acc) auto

lemma scan_stream_info_last:
  "scan_stream_info lines None = Inr (last_declared lines)"
  by (simp add: scan_stream_info_fold foldl_keep_last last_declared_last)

lemma scan_segment_count_fold:
  "scan_segment_count lines acc = Inr (foldl (\<lambda>a n. n) acc (declared lines))"
proof (induction lines arbitrary: acc)
  case Nil
  show ?case by simp
next
  case (Cons line lines)
  show ?case
  proof (cases "segment_count_search line")
    case None
    then show ?thesis using Cons by (simp add: declared_Cons regex_search_def)
  next
    case (Some g)
    then show ?thesis using Cons int_of_str_search [OF Some] by (simp add: declared_Cons regex_search_def)
  qed
qed

lemma scan_segment_count_last:
  "scan_segment_count lines 0 = Inr (case last_declared lines of None \<Rightarrow> 0 | Some n \<Rightarrow> n)"
  by (simp add: scan_segment_count_fold foldl_keep_last [of "\<lambda>n. n"] last_declared_last)

subsection \<open>\<open>seq_stream\<close> against served segments\<close>

lemma setitem_setitem [simp]: "setitem k v (setitem k w d) = setitem k v d"
  by (induction d) auto

lemma chunk_of_yields: "concat (map chunk_of tr) = concat (map fst (yields tr))"
proof (induction tr)
  case Nil
  show ?case by simp
next
  case (Cons e tr)
  then show ?case by (cases e) (simp_all add: yields_def)
qed

lemma segment_url_valid:
  "take 4 (lower (base_url_of lib url)) = ''http'' \<Longrightarrow> take 4 (lower (segment_url lib url k)) = ''http''"
  unfolding segment_url_def by (rule valid_append)

lemma seq_stream_loop_served:
  assumes "\<forall>k\<le>N. serves net (segment_url lib url (int k)) (segs ! k)"
    and "take 4 (lower (base_url_of lib url)) = ''http''" "0 \<le> max_retries" "0 < C"
  shows "j \<le> Suc N \<Longrightarrow>
     \<exists>new. seq_stream_loop net lib C (base_url_of lib url) (setitem ''sq'' w (querys_of lib url))
              timeout max_retries (int N) (int j) tr = Some (Returned, tr @ new)
        \<and> map view new = concat (map (\<lambda>k. stream_events (segment_url lib url (int k)) timeout C (segs ! k))
                                     [j..<Suc N])"
proof (induction "Suc N - j" arbitrary: j w tr)
  case 0
  then have "j = Suc N" by simp
  then show ?case by (subst seq_stream_loop.simps) simp
next
  case (Suc n)
  then have j: "j \<le> N" by simp
  let ?u = "segment_url lib url (int j)"
  have s: "serves net ?u (segs ! j)" using assms(1) j by simp
  from stream_served [OF s segment_url_valid [OF assms(2)] assms(3,4), of timeout tr]
  obtain new1 where
    n1: "stream net C ?u timeout max_retries tr = Some (Returned, tr @ new1)"
        "map view new1 = stream_events ?u timeout C (segs ! j)"
    by blast
  have "n = Suc N - Suc j" "Suc j \<le> Suc N" using Suc.hyps(2) j by simp_all
  from Suc.hyps(1) [OF this, of "str_int (int j)" "tr @ new1"]
  obtain new2 where
    n2: "seq_stream_loop net lib C (base_url_of lib url) (setitem ''sq'' (str_int (int j)) (querys_of lib url))
           timeout max_retries (int N) (int (Suc j)) (tr @ new1) = Some (Returned, (tr @ new1) @ new2)"
        "map view new2 = concat (map (\<lambda>k. stream_events (segment_url lib url (int k)) timeout C (segs ! k))
                                     [Suc j..<Suc N])"
    by blast
  have e: "int (Suc j) = int j + 1" by simp
  have "seq_stream_loop net lib C (base_url_of lib url) (setitem ''sq'' w (querys_of lib url))
          timeout max_retries (int N) (int j) tr = Some (Returned, tr @ (new1 @ new2))"
    using j n1(1) n2(1) [unfolded e]
    by (subst seq_stream_loop.simps) (simp add: segment_url_def)
  moreover have "[j..<Suc N] = j # [Suc j..<Suc N]" using j by (simp add: upt_conv_Cons)
  then have "map view (new1 @ new2) =
      concat (map (\<lambda>k. stream_events (segment_url lib url (int k)) timeout C (segs ! k)) [j..<Suc N])"
    using n1(2) n2(2) by simp
  ultimately show ?case by blast
qed

lemma yields_concat_map:
  "concat (map fst (yields (concat (map f ks)))) = concat (map (\<lambda>k. concat (map fst (yields (f k)))) ks)"
  by (induction ks) simp_all

lemma seq_stream_unfold:
  "seq_stream net lib C url timeout max_retries tr =
     (case stream net C (segment_url lib url 0) timeout max_retries tr of
        None \<Rightarrow> None
      | Some (Raised e, tr') \<Rightarrow> Some (Raised e, tr')
      | Some (Returned, tr') \<Rightarrow>
          (case last_declared (split_crlf (concat (map chunk_of (drop (length tr) tr')))) of
             None \<Rightarrow> Some (Raised UnboundLocalError, tr')
           | Some n \<Rightarrow>
               seq_stream_loop net lib C (base_url_of lib url)
                 (setitem ''sq'' (str_int 0) (querys_of lib url)) timeout max_retries n 1 tr'))"
  by (simp add: seq_stream_def segment_url_def Let_def scan_stream_info_last
           split: option.splits prod.splits outcome.splits)

subsection \<open>\<open>seq_filesize\<close> and the cache\<close>

lemma content_length_reports:
  assumes "reports net url n" "take 4 (lower url) = ''http''"
  shows "content_length net url tr = (Inr n, tr @ [head_request net (clock tr) url])"
proof -
  let ?r = "build_request net (clock tr) url (Some ''HEAD'') None None"
  from assms(1) obtain resp where
    r: "urlopen net (clock tr) ?r = Inr resp" "head_length resp = Inr n"
    unfolding reports_def by (metis req_url_build req_method_build)
  show ?thesis
    using r execute_request_valid [OF assms(2), of net "Some ''HEAD''" None None tr]
    by (simp add: content_length_def head_def head_length_def head_request_def split: sum.splits)
qed

lemma clock_head_request [simp]: "clock (tr @ [head_request net n u]) = Suc (clock tr)"
  by (simp add: head_request_def)

lemma seq_filesize_loop_sum:
  assumes "\<forall>k. 1 \<le> k \<and> k \<le> N \<longrightarrow> reports net (segment_url lib url (int k)) (sizes k)"
    and "take 4 (lower (base_url_of lib url)) = ''http''"
  shows "1 \<le> j \<Longrightarrow> j \<le> Suc N \<Longrightarrow>
     seq_filesize_loop net lib (base_url_of lib url) (setitem ''sq'' w (querys_of lib url))
        (int N) (int j) acc tr
     = (Inr (acc + (\<Sum>k = j..N. sizes k)),
        tr @ map (\<lambda>k. head_request net (clock tr + (k - j)) (segment_url lib url (int k))) [j..<Suc N])"
proof (induction "Suc N - j" arbitrary: j w acc tr)
  case 0
  then have "j = Suc N" by simp
  then show ?case by (subst seq_filesize_loop.simps) simp
next
  case (Suc n)
  then have j: "j \<le> N" by simp
  let ?u = "segment_url lib url (int j)"
  let ?tr = "tr @ [head_request net (clock tr) ?u]"
  have "reports net ?u (sizes j)" using assms(1) j Suc.prems(1) by simp
  from content_length_reports [OF this segment_url_valid [OF assms(2)], of tr]
  have c: "content_length net ?u tr = (Inr (sizes j), ?tr)" .
  have "n = Suc N - Suc j" "1 \<le> Suc j" "Suc j \<le> Suc N" using Suc.hyps(2) j by simp_all
  from Suc.hyps(1) [OF this, of "str_int (int j)" "acc + sizes j" ?tr]
  have ih: "seq_filesize_loop net lib (base_url_of lib url) (setitem ''sq'' (str_int (int j)) (querys_of lib url))
        (int N) (int (Suc j)) (acc + sizes j) ?tr
     = (Inr (acc + sizes j + (\<Sum>k = Suc j..N. sizes k)),
        ?tr @ map (\<lambda>k. head_request net (clock ?tr + (k - Suc j)) (segment_url lib url (int k))) [Suc j..<Suc N])" .
  have e: "int (Suc j) = int j + 1" by simp
  have m: "map (\<lambda>k. head_request net (clock ?tr + (k - Suc j)) (segment_url lib url (int k))) [Suc j..<Suc N]
         = map (\<lambda>k. head_request net (clock tr + (k - j)) (segment_url lib url (int k))) [Suc j..<Suc N]"
  proof (rule map_cong [OF refl])
    fix k assume "k \<in> set [Suc j..<Suc N]"
    then have "Suc j \<le> k" by auto
    then have "clock ?tr + (k - Suc j) = clock tr + (k - j)" by simp
    then show "head_request net (clock ?tr + (k - Suc j)) (segment_url lib url (int k))
             = head_request net (clock tr + (k - j)) (segment_url lib url (int k))"
      by (simp only:)
  qed
  have u: "[j..<Suc N] = j # [Suc j..<Suc N]" using j by (simp add: upt_conv_Cons)
  have s: "(\<Sum>k = j..N. sizes k) = sizes j + (\<Sum>k = Suc j..N. sizes k)"
    using j by (simp add: sum.atLeast_Suc_atMost)
  have step: "seq_filesize_loop net lib (base_url_of lib url) (setitem ''sq'' w (querys_of lib url))
        (int N) (int j) acc tr
      = seq_filesize_loop net lib (base_url_of lib url) (setitem ''sq'' (str_int (int j)) (querys_of lib url))
        (int N) (int j + 1) (acc + sizes j) ?tr"
    using j c by (subst seq_filesize_loop.simps) (simp add: segment_url_def)
  show ?case
    by (simp only: step ih [unfolded e m] u s) (simp del: upt_Suc)
qed

lemma lru_cache_miss:
  "map_of cache x = None \<Longrightarrow>
   lru_cache f x (cache, tr) =
     (case f x tr of
        (Inl e, tr') \<Rightarrow> (Inl e, cache, tr')
      | (Inr v, tr') \<Rightarrow> (Inr v, (x, v) # take 127 cache, tr'))"
  by (simp add: lru_cache_def)

lemma seq_filesize_wrapped_unfold:
  assumes "take 4 (lower (base_url_of lib url)) = ''http''"
    and "urlopen net (clock tr) (build_request net (clock tr) (segment_url lib url 0) (Some ''GET'') None None)
           = Inr response"
    and "read_body (resp_body response) = Inr body"
  shows "seq_filesize_wrapped net lib url tr =
     (case last_declared (split_crlf body) of
        None \<Rightarrow> (Inl (RegexMatchError ''seq_filesize'' segment_regex),
                  tr @ [Request (build_request net (clock tr) (segment_url lib url 0) (Some ''GET'') None None)])
      | Some n \<Rightarrow>
          if n = 0
          then (Inl (RegexMatchError ''seq_filesize'' segment_regex),
                tr @ [Request (build_request net (clock tr) (segment_url lib url 0) (Some ''GET'') None None)])
          else seq_filesize_loop net lib (base_url_of lib url) (setitem ''sq'' (str_int 0) (querys_of lib url))
                 n 1 (int (length body))
                 (tr @ [Request (build_request net (clock tr) (segment_url lib url 0) (Some ''GET'') None None)]))"
  using assms(2,3) execute_request_valid [OF segment_url_valid [OF assms(1), of 0], of net "Some ''GET''" None None tr]
  by (simp add: seq_filesize_wrapped_def Let_def segment_url_def scan_segment_count_last split: option.splits)

lemma parse_window_short: "length u \<le> length u' \<Longrightarrow> parse_window u' u = None"
proof -
  assume a: "length u \<le> length u'"
  have "length (take (length (u' @ ''&range='')) u) < length (u' @ ''&range='')" using a by simp
  then have "take (length (u' @ ''&range='')) u \<noteq> u' @ ''&range=''" by fastforce
  then show ?thesis by (simp add: parse_window_def Let_def)
qed

lemma cdn_exact:
  "(u, data) \<in> set table \<Longrightarrow> distinct (map fst table) \<Longrightarrow> \<forall>p\<in>set table. length (fst p) = length u \<Longrightarrow>
   req_url r = u \<Longrightarrow>
   cdn table n r = Inr \<lparr>resp_info = [(''Content-Length'', str_int (int (length data)))],
                         resp_body = (if req_method r = Some ''HEAD'' then [] else whole data)\<rparr>"
proof (induction table)
  case Nil
  then show ?case by simp
next
  case (Cons p table)
  obtain u' d' where p: "p = (u', d')" by (cases p)
  show ?case
  proof (cases "u' = u")
    case True
    then have "d' = data" using Cons.prems(1,2) p by (auto simp: rev_image_eqI)
    then show ?thesis using True p Cons.prems(4) by simp
  next
    case False
    then have "(u, data) \<in> set table" using Cons.prems(1) p by auto
    moreover have "parse_window u' (req_url r) = None"
      using Cons.prems(3,4) p by (simp add: parse_window_short)
    ultimately show ?thesis using Cons p False by simp
  qed
qed

lemma lower_content_length: "lower ''Content-Length'' = ''content-length''"
  by code_simp

lemma reports_server:
  assumes "(u, data) \<in> set table" "distinct (map fst table)" "\<forall>p\<in>set table. length (fst p) = length u"
  shows "reports (server table) u (int (length data))"
  unfolding reports_def server_def
  using cdn_exact [OF assms]
  by (simp add: head_length_def dict_def dict_update_def dict_getitem_def lower_content_length int_of_str_str_int)

lemma read_body_whole [simp]: "read_body (whole data) = Inr data"
  by (simp add: whole_def)


subsection \<open>A turn whose request succeeds\<close>

lemma stream_loop_again:
  "stream_turn net C url timeout max_retries fs d tr = Again fs' d' tr' \<Longrightarrow>
   stream_loop net C url timeout max_retries fs d tr = stream_loop net C url timeout max_retries fs' d' tr'"
  by (subst stream_loop.simps) simp

lemma stream_turn_reads:
  assumes "stream_retry net url timeout max_retries d (min (d + C) fs - 1) 0 tr = (Inr resp, tr1)"
    and "d < fs" "fs \<noteq> C" "resp_body resp = whole chunk"
  shows "stream_turn net C url timeout max_retries fs d tr =
           Again fs (d + int (length chunk))
             (tr1 @ (if chunk = [] then [] else [Yield chunk (d + int (length chunk))]))"
  using assms by (simp add: stream_turn_def Let_def drain_whole)

lemma probe_answers:
  assumes "take 4 (lower url) = ''http''"
    and "urlopen net (clock tr) (build_request net (clock tr) (probe_url url) (Some ''GET'') None timeout) = Inr p"
    and "py_int (message_getitem (resp_info p) ''Content-Length'') = Inr S"
  shows "probe net url timeout fs tr =
           (Inr S, tr @ [Request (build_request net (clock tr) (probe_url url) (Some ''GET'') None timeout)])"
proof -
  have v: "take 4 (lower (probe_url url)) = ''http''"
    unfolding probe_url_def by (rule valid_append [OF assms(1)])
  show ?thesis
    using assms(2,3) execute_request_valid [OF v, of net "Some ''GET''" None timeout tr]
    by (simp add: probe_def probe_url_def)
qed

lemma stream_turn_probes_and_reads:
  assumes "take 4 (lower url) = ''http''"
    and "stream_retry net url timeout max_retries d (min (d + C) C - 1) 0 tr = (Inr resp, tr1)"
    and "d < C" "resp_body resp = whole chunk"
    and "urlopen net (clock tr1) (build_request net (clock tr1) (probe_url url) (Some ''GET'') None timeout) = Inr p"
    and "py_int (message_getitem (resp_info p) ''Content-Length'') = Inr S"
  shows "stream_turn net C url timeout max_retries C d tr =
           Again S (d + int (length chunk))
             (tr1 @ [Request (build_request net (clock tr1) (probe_url url) (Some ''GET'') None timeout)]
                 @ (if chunk = [] then [] else [Yield chunk (d + int (length chunk))]))"
  using assms(2,3,4) probe_answers [OF assms(1,5,6), of C]
  by (simp add: stream_turn_def Let_def drain_whole)

section \<open>The claims\<close>

text \<open>
  C1. For every resource of total size \<open>S\<close> served by a transport that always
  succeeds and follows the wire contract (\<open>serves\<close>), with a chunk size \<open>C > 0\<close>, a
  retry budget that is not negative and an HTTP URL: \<open>stream\<close> returns; the chunks
  it yields, concatenated, are the resource, so they have exactly \<open>S\<close> bytes; the
  values of \<open>downloaded\<close> at the yields are strictly increasing; no chunk is empty;
  and when \<open>C\<close> divides \<open>S\<close> there are exactly \<open>S / C\<close> chunks.
\<close>

theorem stream_yields_whole_resource:
  assumes "serves net url data" "take 4 (lower url) = ''http''" "0 \<le> max_retries" "0 < C"
  shows "\<exists>new. stream net C url timeout max_retries tr = Some (Returned, tr @ new)
           \<and> concat (map fst (yields new)) = data
           \<and> length (concat (map fst (yields new))) = length data
           \<and> sorted_wrt (<) (map snd (yields new))
           \<and> (\<forall>y\<in>set (yields new). fst y \<noteq> [])
           \<and> (C dvd int (length data) \<longrightarrow> int (length (yields new)) = int (length data) div C)"
proof -
  from stream_served [OF assms, of timeout tr] obtain new where
    n: "stream net C url timeout max_retries tr = Some (Returned, tr @ new)"
       "map view new = stream_events url timeout C data"
    by blast
  have "yields new = yields (stream_events url timeout C data)"
    using n(2) yields_view [of new] by simp
  then show ?thesis using n(1) stream_events_yields [OF assms(4), of url timeout data] by auto
qed

theorem stream_yields_whole_resource_witness:
  "serves (server [(''http://h/v?x=1'', ''abcdefghijklmnopqrstuvwxy'')]) ''http://h/v?x=1''
     ''abcdefghijklmnopqrstuvwxy''
   \<and> take 4 (lower ''http://h/v?x=1'') = ''http'' \<and> (0::int) \<le> 0 \<and> (0::int) < 5
   \<and> (5::int) dvd int (length ''abcdefghijklmnopqrstuvwxy'')
   \<and> (\<exists>new. stream (server [(''http://h/v?x=1'', ''abcdefghijklmnopqrstuvwxy'')]) 5
               ''http://h/v?x=1'' None 0 [] = Some (Returned, [] @ new)
          \<and> concat (map fst (yields new)) = ''abcdefghijklmnopqrstuvwxy''
          \<and> sorted_wrt (<) (map snd (yields new))
          \<and> (\<forall>y\<in>set (yields new). fst y \<noteq> [])
          \<and> int (length (yields new)) = 5)"
proof -
  let ?u = "''http://h/v?x=1''"
  let ?data = "''abcdefghijklmnopqrstuvwxy''"
  have s: "serves (server [(?u, ?data)]) ?u ?data" by (rule serves_server) simp_all
  have v: "take 4 (lower ?u) = ''http''" by code_simp
  have d: "(5::int) dvd int (length ?data)" by simp
  from stream_yields_whole_resource [OF s v, of 0 5 None "[]"] d
  show ?thesis using s v by auto
qed

text \<open>
  C2. For every \<open>k\<close>, for a transport that answers the request for one chunk
  with a timeout exactly \<open>k\<close> times and then with a response, and a retry budget
  that is not negative. If \<open>max_retries \<ge> k\<close>: the retry loop of \<open>stream\<close> ends
  with that response after exactly \<open>k + 1\<close> requests, and \<open>stream\<close> succeeds for
  the chunk: the turn reads the body of that response and yields it (after the
  size probe, in a turn that starts at the placeholder), \<open>downloaded\<close> grows by the
  length of the chunk, and the loop of \<open>stream\<close> goes on from there. If
  \<open>max_retries < k\<close>: the retry loop raises \<open>MaxRetriesExceeded\<close> after exactly
  \<open>max_retries + 1\<close> requests, and that ends the whole \<open>stream\<close>.
\<close>

theorem stream_retry_budget:
  assumes "take 4 (lower url) = ''http''" "0 \<le> max_retries"
    and "\<forall>i<k. urlopen net (clock tr + i)
              (build_request net (clock tr + i) (window_url url d sp) (Some ''GET'') None timeout)
            = Inl (URLError SocketTimeout)"
    and "urlopen net (clock tr + k)
              (build_request net (clock tr + k) (window_url url d sp) (Some ''GET'') None timeout)
            = Inr resp"
  shows "(int k \<le> max_retries \<longrightarrow>
            stream_retry net url timeout max_retries d sp 0 tr =
              (Inr resp, tr @ attempts net (window_url url d sp) timeout (clock tr) (k + 1))
            \<and> length (attempts net (window_url url d sp) timeout (clock tr) (k + 1)) = k + 1
            \<and> (\<forall>C file_size chunk.
                  d < file_size \<and> sp = min (d + C) file_size - 1 \<and> file_size \<noteq> C
                  \<and> resp_body resp = whole chunk \<longrightarrow>
                  stream_turn net C url timeout max_retries file_size d tr =
                    Again file_size (d + int (length chunk))
                      (tr @ attempts net (window_url url d sp) timeout (clock tr) (k + 1)
                          @ (if chunk = [] then [] else [Yield chunk (d + int (length chunk))]))
                  \<and> stream_loop net C url timeout max_retries file_size d tr =
                    stream_loop net C url timeout max_retries file_size (d + int (length chunk))
                      (tr @ attempts net (window_url url d sp) timeout (clock tr) (k + 1)
                          @ (if chunk = [] then [] else [Yield chunk (d + int (length chunk))])))
            \<and> (\<forall>C chunk p S.
                  d < C \<and> sp = min (d + C) C - 1 \<and> resp_body resp = whole chunk
                  \<and> urlopen net (clock tr + k + 1)
                       (build_request net (clock tr + k + 1) (probe_url url) (Some ''GET'') None timeout) = Inr p
                  \<and> py_int (message_getitem (resp_info p) ''Content-Length'') = Inr S \<longrightarrow>
                  stream_turn net C url timeout max_retries C d tr =
                    Again S (d + int (length chunk))
                      (tr @ attempts net (window_url url d sp) timeout (clock tr) (k + 1)
                          @ [Request (build_request net (clock tr + k + 1) (probe_url url) (Some ''GET'') None timeout)]
                          @ (if chunk = [] then [] else [Yield chunk (d + int (length chunk))]))
                  \<and> stream_loop net C url timeout max_retries C d tr =
                    stream_loop net C url timeout max_retries S (d + int (length chunk))
                      (tr @ attempts net (window_url url d sp) timeout (clock tr) (k + 1)
                          @ [Request (build_request net (clock tr + k + 1) (probe_url url) (Some ''GET'') None timeout)]
                          @ (if chunk = [] then [] else [Yield chunk (d + int (length chunk))]))))
       \<and> (max_retries < int k \<longrightarrow>
            stream_retry net url timeout max_retries d sp 0 tr =
              (Inl MaxRetriesExceeded,
               tr @ attempts net (window_url url d sp) timeout (clock tr) (nat max_retries + 1))
            \<and> length (attempts net (window_url url d sp) timeout (clock tr) (nat max_retries + 1))
                = nat max_retries + 1
            \<and> (\<forall>C file_size. d < file_size \<and> sp = min (d + C) file_size - 1 \<longrightarrow>
                  stream_loop net C url timeout max_retries file_size d tr =
                    Some (Raised MaxRetriesExceeded,
                          tr @ attempts net (window_url url d sp) timeout (clock tr) (nat max_retries + 1))))"
proof (intro conjI impI)
  let ?A = "attempts net (window_url url d sp) timeout (clock tr) (k + 1)"
  assume "int k \<le> max_retries"
  then have r: "stream_retry net url timeout max_retries d sp 0 tr = (Inr resp, tr @ ?A)"
    using stream_retry_succeeds [OF assms(1,3,4), of 0 max_retries] by simp
  then show "stream_retry net url timeout max_retries d sp 0 tr = (Inr resp, tr @ ?A)" .
  have c: "clock (tr @ ?A) = clock tr + k + 1" by simp
  show "\<forall>C file_size chunk.
          d < file_size \<and> sp = min (d + C) file_size - 1 \<and> file_size \<noteq> C
          \<and> resp_body resp = whole chunk \<longrightarrow>
          stream_turn net C url timeout max_retries file_size d tr =
            Again file_size (d + int (length chunk))
              (tr @ ?A @ (if chunk = [] then [] else [Yield chunk (d + int (length chunk))]))
          \<and> stream_loop net C url timeout max_retries file_size d tr =
            stream_loop net C url timeout max_retries file_size (d + int (length chunk))
              (tr @ ?A @ (if chunk = [] then [] else [Yield chunk (d + int (length chunk))]))"
  proof (intro allI impI)
    fix C file_size chunk
    assume a: "d < file_size \<and> sp = min (d + C) file_size - 1 \<and> file_size \<noteq> C
          \<and> resp_body resp = whole chunk"
    then have r': "stream_retry net url timeout max_retries d (min (d + C) file_size - 1) 0 tr
                     = (Inr resp, tr @ ?A)"
      using r by simp
    from a stream_turn_reads [OF r', of chunk]
    have t: "stream_turn net C url timeout max_retries file_size d tr =
            Again file_size (d + int (length chunk))
              (tr @ ?A @ (if chunk = [] then [] else [Yield chunk (d + int (length chunk))]))"
      by simp
    from t stream_loop_again [OF t]
    show "stream_turn net C url timeout max_retries file_size d tr =
            Again file_size (d + int (length chunk))
              (tr @ ?A @ (if chunk = [] then [] else [Yield chunk (d + int (length chunk))]))
          \<and> stream_loop net C url timeout max_retries file_size d tr =
            stream_loop net C url timeout max_retries file_size (d + int (length chunk))
              (tr @ ?A @ (if chunk = [] then [] else [Yield chunk (d + int (length chunk))]))"
      by blast
  qed
  show "\<forall>C chunk p S.
          d < C \<and> sp = min (d + C) C - 1 \<and> resp_body resp = whole chunk
          \<and> urlopen net (clock tr + k + 1)
               (build_request net (clock tr + k + 1) (probe_url url) (Some ''GET'') None timeout) = Inr p
          \<and> py_int (message_getitem (resp_info p) ''Content-Length'') = Inr S \<longrightarrow>
          stream_turn net C url timeout max_retries C d tr =
            Again S (d + int (length chunk))
              (tr @ ?A
                  @ [Request (build_request net (clock tr + k + 1) (probe_url url) (Some ''GET'') None timeout)]
                  @ (if chunk = [] then [] else [Yield chunk (d + int (length chunk))]))
          \<and> stream_loop net C url timeout max_retries C d tr =
            stream_loop net C url timeout max_retries S (d + int (length chunk))
              (tr @ ?A
                  @ [Request (build_request net (clock tr + k + 1) (probe_url url) (Some ''GET'') None timeout)]
                  @ (if chunk = [] then [] else [Yield chunk (d + int (length chunk))]))"
  proof (intro allI impI)
    fix C chunk p S
    assume a: "d < C \<and> sp = min (d + C) C - 1 \<and> resp_body resp = whole chunk
          \<and> urlopen net (clock tr + k + 1)
               (build_request net (clock tr + k + 1) (probe_url url) (Some ''GET'') None timeout) = Inr p
          \<and> py_int (message_getitem (resp_info p) ''Content-Length'') = Inr S"
    then have r': "stream_retry net url timeout max_retries d (min (d + C) C - 1) 0 tr = (Inr resp, tr @ ?A)"
      using r by simp
    have p: "urlopen net (clock (tr @ ?A))
               (build_request net (clock (tr @ ?A)) (probe_url url) (Some ''GET'') None timeout) = Inr p"
      using a unfolding c by blast
    from a stream_turn_probes_and_reads [OF assms(1) r' _ _ p, of chunk S]
    have t: "stream_turn net C url timeout max_retries C d tr =
            Again S (d + int (length chunk))
              (tr @ ?A
                  @ [Request (build_request net (clock tr + k + 1) (probe_url url) (Some ''GET'') None timeout)]
                  @ (if chunk = [] then [] else [Yield chunk (d + int (length chunk))]))"
      unfolding c by simp
    from t stream_loop_again [OF t]
    show "stream_turn net C url timeout max_retries C d tr =
            Again S (d + int (length chunk))
              (tr @ ?A
                  @ [Request (build_request net (clock tr + k + 1) (probe_url url) (Some ''GET'') None timeout)]
                  @ (if chunk = [] then [] else [Yield chunk (d + int (length chunk))]))
          \<and> stream_loop net C url timeout max_retries C d tr =
            stream_loop net C url timeout max_retries S (d + int (length chunk))
              (tr @ ?A
                  @ [Request (build_request net (clock tr + k + 1) (probe_url url) (Some ''GET'') None timeout)]
                  @ (if chunk = [] then [] else [Yield chunk (d + int (length chunk))]))"
      by blast
  qed
next
  assume m: "max_retries < int k"
  let ?m = "nat max_retries + 1"
  have "\<forall>i<?m. urlopen net (clock tr + i)
              (build_request net (clock tr + i) (window_url url d sp) (Some ''GET'') None timeout)
            = Inl (URLError SocketTimeout)"
    using assms(2,3) m by auto
  from stream_retry_exhausted [OF assms(1) this, of 0 max_retries] assms(2)
  have r: "stream_retry net url timeout max_retries d sp 0 tr =
      (Inl MaxRetriesExceeded, tr @ attempts net (window_url url d sp) timeout (clock tr) ?m)"
    by simp
  then show "stream_retry net url timeout max_retries d sp 0 tr =
      (Inl MaxRetriesExceeded, tr @ attempts net (window_url url d sp) timeout (clock tr) ?m)" .
  show "\<forall>C file_size. d < file_size \<and> sp = min (d + C) file_size - 1 \<longrightarrow>
          stream_loop net C url timeout max_retries file_size d tr =
            Some (Raised MaxRetriesExceeded, tr @ attempts net (window_url url d sp) timeout (clock tr) ?m)"
    using r stream_loop_raises by blast
qed simp_all

theorem stream_retry_budget_witness:
  "stream_turn (late_server 2 [(''http://h/v?x=1'', ''abcdefghijklmnopqrstuvwxy'')]) 10 ''http://h/v?x=1'' None 2 10 0 []
     = Again 25 10
        (attempts (late_server 2 [(''http://h/v?x=1'', ''abcdefghijklmnopqrstuvwxy'')])
            (window_url ''http://h/v?x=1'' 0 9) None 0 3
         @ [Request (build_request (late_server 2 [(''http://h/v?x=1'', ''abcdefghijklmnopqrstuvwxy'')]) 3
                       (probe_url ''http://h/v?x=1'') (Some ''GET'') None None),
            Yield ''abcdefghij'' 10])
   \<and> stream_turn (late_server 2 [(''http://h/v?x=1'', ''abcdefghijklmnopqrstuvwxy'')]) 10 ''http://h/v?x=1'' None 2 25 10 []
     = Again 25 20
        (attempts (late_server 2 [(''http://h/v?x=1'', ''abcdefghijklmnopqrstuvwxy'')])
            (window_url ''http://h/v?x=1'' 10 19) None 0 3
         @ [Yield ''klmnopqrst'' 20])
   \<and> stream_loop (late_server 2 [(''http://h/v?x=1'', ''abcdefghijklmnopqrstuvwxy'')]) 10 ''http://h/v?x=1'' None 1 10 0 []
     = Some (Raised MaxRetriesExceeded,
        attempts (late_server 2 [(''http://h/v?x=1'', ''abcdefghijklmnopqrstuvwxy'')])
            (window_url ''http://h/v?x=1'' 0 9) None 0 2)
   \<and> map_option (\<lambda>(out, tr). (out, requests tr, yields tr))
        (stream (late_server 2 [(''http://h/v?x=1'', ''abcdefghijklmnopqrstuvwxy'')]) 10 ''http://h/v?x=1'' None 2 [])
     = Some (Returned,
         [(Some ''GET'', ''http://h/v?x=1&range=0-9''), (Some ''GET'', ''http://h/v?x=1&range=0-9''),
          (Some ''GET'', ''http://h/v?x=1&range=0-9''), (Some ''GET'', ''http://h/v?x=1&range=0-99999999999''),
          (Some ''GET'', ''http://h/v?x=1&range=10-19''), (Some ''GET'', ''http://h/v?x=1&range=20-24'')],
         [(''abcdefghij'', 10), (''klmnopqrst'', 20), (''uvwxy'', 25)])"
proof -
  let ?net = "late_server 2 [(''http://h/v?x=1'', ''abcdefghijklmnopqrstuvwxy'')]"
  let ?u = "''http://h/v?x=1''"
  let ?R1 = "\<lparr>resp_info = [(''Content-Length'', ''10'')], resp_body = [Data ''abcdefghij'']\<rparr>"
  let ?R2 = "\<lparr>resp_info = [(''Content-Length'', ''10'')], resp_body = [Data ''klmnopqrst'']\<rparr>"
  let ?P = "\<lparr>resp_info = [(''Content-Length'', ''25'')], resp_body = [Data ''abcdefghijklmnopqrstuvwxy'']\<rparr>"
  have v: "take 4 (lower ?u) = ''http''" by code_simp
  have c: "clock [] = 0" by (simp add: clock_def)
  have e: "clock [] + 2 = 2" "clock [] + 2 + 1 = 3" by (simp_all add: clock_def)
  have t1: "\<forall>i<2. urlopen ?net (clock [] + i)
             (build_request ?net (clock [] + i) (window_url ?u 0 9) (Some ''GET'') None None)
           = Inl (URLError SocketTimeout)"
    by (simp add: late_server_def clock_def)
  have t2: "\<forall>i<2. urlopen ?net (clock [] + i)
             (build_request ?net (clock [] + i) (window_url ?u 10 19) (Some ''GET'') None None)
           = Inl (URLError SocketTimeout)"
    by (simp add: late_server_def clock_def)
  have "urlopen ?net 2 (build_request ?net 2 (window_url ?u 0 9) (Some ''GET'') None None) = Inr ?R1"
    by code_simp
  then have r1: "urlopen ?net (clock [] + 2)
             (build_request ?net (clock [] + 2) (window_url ?u 0 9) (Some ''GET'') None None) = Inr ?R1"
    by (simp only: e(1))
  have "urlopen ?net 2 (build_request ?net 2 (window_url ?u 10 19) (Some ''GET'') None None) = Inr ?R2"
    by code_simp
  then have r2: "urlopen ?net (clock [] + 2)
             (build_request ?net (clock [] + 2) (window_url ?u 10 19) (Some ''GET'') None None) = Inr ?R2"
    by (simp only: e(1))
  have "urlopen ?net 3 (build_request ?net 3 (probe_url ?u) (Some ''GET'') None None) = Inr ?P"
    by code_simp
  then have p: "urlopen ?net (clock [] + 2 + 1)
             (build_request ?net (clock [] + 2 + 1) (probe_url ?u) (Some ''GET'') None None) = Inr ?P"
    by (simp only: e(2))
  have s: "py_int (message_getitem (resp_info ?P) ''Content-Length'') = Inr 25" by code_simp
  have b1: "resp_body ?R1 = whole ''abcdefghij''" "resp_body ?R2 = whole ''klmnopqrst''"
    by (simp_all add: whole_def)
  note T1 = stream_retry_budget [where max_retries = 2, OF v _ t1 r1]
  note T2 = stream_retry_budget [where max_retries = 2, OF v _ t2 r2]
  note T3 = stream_retry_budget [where max_retries = 1, OF v _ t1 r1]
  have 1: "stream_turn ?net 10 ?u None 2 10 0 []
     = Again 25 10
        (attempts ?net (window_url ?u 0 9) None 0 3
         @ [Request (build_request ?net 3 (probe_url ?u) (Some ''GET'') None None), Yield ''abcdefghij'' 10])"
    using T1 [THEN conjunct1, THEN mp, THEN conjunct2, THEN conjunct2, THEN conjunct2, rule_format,
              of 10 "''abcdefghij''" ?P 25] b1 p s
    by (simp add: c numeral_3_eq_3)
  have 2: "stream_turn ?net 10 ?u None 2 25 10 []
     = Again 25 20 (attempts ?net (window_url ?u 10 19) None 0 3 @ [Yield ''klmnopqrst'' 20])"
    using T2 [THEN conjunct1, THEN mp, THEN conjunct2, THEN conjunct2, THEN conjunct1, rule_format,
              of 25 10 "''klmnopqrst''"] b1
    by (simp add: c numeral_3_eq_3)
  have 3: "stream_loop ?net 10 ?u None 1 10 0 []
     = Some (Raised MaxRetriesExceeded, attempts ?net (window_url ?u 0 9) None 0 2)"
    using T3 [THEN conjunct2, THEN mp, THEN conjunct2, THEN conjunct2, rule_format, of 10 10]
    by (simp add: c numeral_2_eq_2)
  have 4: "map_option (\<lambda>(out, tr). (out, requests tr, yields tr)) (stream ?net 10 ?u None 2 [])
     = Some (Returned,
         [(Some ''GET'', ''http://h/v?x=1&range=0-9''), (Some ''GET'', ''http://h/v?x=1&range=0-9''),
          (Some ''GET'', ''http://h/v?x=1&range=0-9''), (Some ''GET'', ''http://h/v?x=1&range=0-99999999999''),
          (Some ''GET'', ''http://h/v?x=1&range=10-19''), (Some ''GET'', ''http://h/v?x=1&range=20-24'')],
         [(''abcdefghij'', 10), (''klmnopqrst'', 20), (''uvwxy'', 25)])"
    by code_simp
  from 1 2 3 4 show ?thesis by blast
qed

text \<open>
  C3. With chunk size 10 and a resource of 25 bytes on a transport that always
  succeeds and follows the wire contract, \<open>stream\<close> returns after exactly four
  requests, all \<open>GET\<close>: the byte windows 0-9, 10-19 and 20-24, and the one size
  probe, issued right after the first window. It yields three chunks, 25 bytes in
  total, and \<open>downloaded\<close> is 10, 20, 25 at the yields.
\<close>

theorem stream_scenario_10_25:
  assumes "serves net url data" "length data = 25" "take 4 (lower url) = ''http''" "0 \<le> max_retries"
  shows "\<exists>new. stream net 10 url timeout max_retries tr = Some (Returned, tr @ new)
           \<and> requests new =
               [(Some ''GET'', url @ ''&range=0-9''), (Some ''GET'', url @ ''&range=0-99999999999''),
                (Some ''GET'', url @ ''&range=10-19''), (Some ''GET'', url @ ''&range=20-24'')]
           \<and> yields new = [(take 10 data, 10), (take 10 (drop 10 data), 20), (drop 20 data, 25)]
           \<and> length (concat (map fst (yields new))) = 25
           \<and> map snd (yields new) = [10, 20, 25]"
proof -
  from stream_served [OF assms(1,3,4), of 10 timeout tr] obtain new where
    n: "stream net 10 url timeout max_retries tr = Some (Returned, tr @ new)"
       "map view new = stream_events url timeout 10 data"
    by auto
  have "requests new = requests (stream_events url timeout 10 data)"
       "yields new = yields (stream_events url timeout 10 data)"
    using n(2) requests_view [of new] yields_view [of new] by simp_all
  then show ?thesis using n(1) assms(2) by (simp add: stream_events_25 [OF assms(2)])
qed

theorem stream_scenario_10_25_witness:
  "serves (server [(''http://h/v?x=1'', ''abcdefghijklmnopqrstuvwxy'')]) ''http://h/v?x=1''
     ''abcdefghijklmnopqrstuvwxy''
   \<and> length ''abcdefghijklmnopqrstuvwxy'' = 25
   \<and> take 4 (lower ''http://h/v?x=1'') = ''http'' \<and> (0::int) \<le> 0
   \<and> (\<exists>new. stream (server [(''http://h/v?x=1'', ''abcdefghijklmnopqrstuvwxy'')]) 10
               ''http://h/v?x=1'' None 0 [] = Some (Returned, new)
          \<and> requests new =
               [(Some ''GET'', ''http://h/v?x=1&range=0-9''),
                (Some ''GET'', ''http://h/v?x=1&range=0-99999999999''),
                (Some ''GET'', ''http://h/v?x=1&range=10-19''),
                (Some ''GET'', ''http://h/v?x=1&range=20-24'')]
          \<and> yields new = [(''abcdefghij'', 10), (''klmnopqrst'', 20), (''uvwxy'', 25)])"
proof -
  let ?u = "''http://h/v?x=1''"
  let ?data = "''abcdefghijklmnopqrstuvwxy''"
  have s: "serves (server [(?u, ?data)]) ?u ?data" by (rule serves_server) simp_all
  have l: "length ?data = 25" by simp
  have v: "take 4 (lower ?u) = ''http''" by code_simp
  from stream_scenario_10_25 [OF s l v, of 0 None "[]"]
  show ?thesis using s v by auto
qed

text \<open>
  C4, as stated, fails: the scan has no \<open>break\<close>, so a later match replaces an
  earlier one. Segment 0 declares 1 on its first line and 2 on its second;
  \<open>seq_stream\<close> goes on to request segments 1 and 2.
\<close>

theorem seq_stream_first_count_counterexample:
  "first_declared (split_crlf (''Segment-Count: 1'' @ [CHR 0x0D, CHR 0x0A] @ ''Segment-Count: 2'')) = Some 1
   \<and> map_option (\<lambda>(out, tr). (out, requests tr))
       (seq_stream
          (server [(''http://h//v?x=1&sq=0'', ''Segment-Count: 1'' @ [CHR 0x0D, CHR 0x0A] @ ''Segment-Count: 2''),
                   (''http://h//v?x=1&sq=1'', ''one''),
                   (''http://h//v?x=1&sq=2'', ''two'')])
          plain_urllib 100 ''http://h/v?x=1'' None 0 [])
     = Some (Returned,
         [(Some ''GET'', ''http://h//v?x=1&sq=0&range=0-99''),
          (Some ''GET'', ''http://h//v?x=1&sq=0&range=0-99999999999''),
          (Some ''GET'', ''http://h//v?x=1&sq=1&range=0-99''),
          (Some ''GET'', ''http://h//v?x=1&sq=1&range=0-99999999999''),
          (Some ''GET'', ''http://h//v?x=1&sq=2&range=0-99''),
          (Some ''GET'', ''http://h//v?x=1&sq=2&range=0-99999999999'')])"
  by code_simp

text \<open>
  C4, as amended. Once the fetch of segment 0 is over, \<open>seq_stream\<close> splits the
  bytes it has yielded so far at CR LF and scans every line; the segment count it
  uses as the bound of its loop is the one parsed from the last line that matches
  \<open>Segment-Count: <digits>\<close> (\<open>last_declared\<close>). With no matching line the name is
  unbound and the loop test raises.
\<close>

theorem seq_stream_uses_last_count:
  "seq_stream net lib C url timeout max_retries tr =
     (case stream net C (segment_url lib url 0) timeout max_retries tr of
        None \<Rightarrow> None
      | Some (Raised e, tr') \<Rightarrow> Some (Raised e, tr')
      | Some (Returned, tr') \<Rightarrow>
          (case last_declared (split_crlf (concat (map chunk_of (drop (length tr) tr')))) of
             None \<Rightarrow> Some (Raised UnboundLocalError, tr')
           | Some n \<Rightarrow>
               seq_stream_loop net lib C (base_url_of lib url)
                 (setitem ''sq'' (str_int 0) (querys_of lib url)) timeout max_retries n 1 tr'))"
  by (rule seq_stream_unfold)

text \<open>
  C5, as stated, fails: the probe is issued in every turn that finds \<open>file_size\<close>
  equal to the placeholder. Here the chunk size is 3, the first response brings 2
  bytes, no response has a usable \<open>Content-Length\<close>, and the probe is issued twice.
\<close>

theorem stream_probe_once_counterexample:
  "map_option (\<lambda>(out, tr). (out, requests tr))
     (stream (unknown_length [''ab'', [], ''c'', []])
        3 ''http://h/v'' None 0 [])
   = Some (Returned,
       [(Some ''GET'', ''http://h/v&range=0-2''),
        (Some ''GET'', ''http://h/v&range=0-99999999999''),
        (Some ''GET'', ''http://h/v&range=2-2''),
        (Some ''GET'', ''http://h/v&range=0-99999999999'')])"
  by code_simp

text \<open>
  C5, as amended. In a turn that starts with \<open>file_size\<close> equal to the placeholder
  \<open>C\<close> (the first turn, and any later turn while that still holds) and whose chunk
  request has succeeded, the probe is issued; when reading the length from it
  raises \<open>KeyError\<close>, \<open>IndexError\<close> or \<open>ValueError\<close> (a \<open>Content-Length\<close> that is
  not a number, for one), the error is logged, \<open>file_size\<close> stays the placeholder and
  the turn goes on to read the chunk with the placeholder as its target.
\<close>

theorem stream_probe_while_placeholder:
  assumes "take 4 (lower url) = ''http''"
    and "downloaded < C"
    and "stream_retry net url timeout max_retries downloaded (min (downloaded + C) C - 1) 0 tr
           = (Inr response, tr1)"
    and "(case urlopen net (clock tr1) (build_request net (clock tr1) (probe_url url) (Some ''GET'') None timeout) of
            Inl e \<Rightarrow> Inl e
          | Inr resp \<Rightarrow> py_int (message_getitem (resp_info resp) ''Content-Length'')) = Inl e"
    and "e = KeyError \<or> e = IndexError \<or> e = ValueError"
  shows "stream_turn net C url timeout max_retries C downloaded tr =
           (case drain (resp_body response) downloaded
                   (tr1 @ [Request (build_request net (clock tr1) (url @ ''&range=0-99999999999'')
                                      (Some ''GET'') None timeout),
                           LogError e]) of
              (Break, downloaded', tr3) \<Rightarrow> Again C downloaded' tr3
            | (Return, downloaded', tr3) \<Rightarrow> Stop Returned tr3
            | (Raise e', downloaded', tr3) \<Rightarrow> Stop (Raised e') tr3)"
  using assms(2,3) probe_swallows [OF assms(1,4,5), of C]
  by (simp add: stream_turn_def Let_def probe_url_def)

theorem stream_probe_while_placeholder_witness:
  "stream_turn (unknown_length [''ab'', [], ''c'', []]) 3 ''http://h/v'' None 0 3 2
     [get_request ''http://h/v&range=0-2'' None, get_request ''http://h/v&range=0-99999999999'' None,
      LogError ValueError, Yield ''ab'' 2]
   = Again 3 3
      ([get_request ''http://h/v&range=0-2'' None, get_request ''http://h/v&range=0-99999999999'' None,
        LogError ValueError, Yield ''ab'' 2]
       @ [Request (build_request (unknown_length [''ab'', [], ''c'', []])
                     2 ''http://h/v&range=2-2'' (Some ''GET'') None None),
          Request (build_request (unknown_length [''ab'', [], ''c'', []])
                     3 ''http://h/v&range=0-99999999999'' (Some ''GET'') None None),
          LogError ValueError, Yield ''c'' 3])"
proof -
  let ?net = "unknown_length [''ab'', [], ''c'', []]"
  let ?u = "''http://h/v''"
  let ?tr = "[get_request ''http://h/v&range=0-2'' None, get_request ''http://h/v&range=0-99999999999'' None,
      LogError ValueError, Yield ''ab'' 2]"
  let ?r = "build_request ?net 2 ''http://h/v&range=2-2'' (Some ''GET'') None None"
  let ?resp = "\<lparr>resp_info = [(''Content-Length'', ''unknown'')], resp_body = [Data ''c'']\<rparr>"
  have v: "take 4 (lower ?u) = ''http''" by code_simp
  have d: "(2::int) < 3" by simp
  have c: "clock ?tr = 2" "clock (?tr @ [Request ?r]) = 3" by (simp_all add: clock_def get_request_def)
  have w: "window_url ?u 2 2 = ''http://h/v&range=2-2''" by code_simp
  have n: "\<And>q. urlopen ?net 2 q = Inr ?resp"
          "\<And>q. urlopen ?net 3 q = Inr \<lparr>resp_info = [(''Content-Length'', ''unknown'')], resp_body = []\<rparr>"
    by (simp_all add: unknown_length_def scripted_def whole_def)
  have r: "stream_retry ?net ?u None 0 2 (min (2 + 3) 3 - 1) 0 ?tr = (Inr ?resp, ?tr @ [Request ?r])"
    by (subst stream_retry_step [OF v]) (simp_all add: Let_def c w n)
  have i: "int_of_str ''unknown'' = Inl ValueError" by code_simp
  have p: "(case urlopen ?net (clock (?tr @ [Request ?r]))
                  (build_request ?net (clock (?tr @ [Request ?r])) (probe_url ?u) (Some ''GET'') None None) of
              Inl e \<Rightarrow> Inl e
            | Inr resp \<Rightarrow> py_int (message_getitem (resp_info resp) ''Content-Length'')) = Inl ValueError"
    unfolding c by (simp add: n message_getitem_single py_int_def i)
  from stream_probe_while_placeholder [OF v d r p]
  show ?thesis unfolding c by simp
qed

text \<open>
  C6, as stated, fails: \<open>range_header\<close> is computed in \<open>stream\<close> and never
  passed on. In the run with chunk size 10 over 25 bytes, none of the four
  requests has a \<open>Range\<close> header.
\<close>

theorem stream_range_header_counterexample:
  "map_option (\<lambda>(out, tr). (out, requests tr, concat (map range_header tr)))
     (stream (server [(''http://h/v?x=1'', ''abcdefghijklmnopqrstuvwxy'')]) 10 ''http://h/v?x=1'' None 0 [])
   = Some (Returned,
       [(Some ''GET'', ''http://h/v?x=1&range=0-9''),
        (Some ''GET'', ''http://h/v?x=1&range=0-99999999999''),
        (Some ''GET'', ''http://h/v?x=1&range=10-19''),
        (Some ''GET'', ''http://h/v?x=1&range=20-24'')],
       [None, None, None, None])"
  by code_simp

text \<open>
  C6, as amended. In every turn of the loop of \<open>stream\<close> (with an HTTP URL and a
  retry budget that is not negative), the first event is a \<open>GET\<close> request, and it
  and every retry of it go to the URL of the fetch followed by
  \<open>&range=<downloaded>-<min(downloaded + C, file_size) - 1>\<close>: the byte window is part
  of the URL. The request has the headers \<open>User-Agent\<close> and \<open>accept-language\<close> and
  no \<open>Range\<close> header.
\<close>

theorem stream_window_in_url:
  assumes "take 4 (lower url) = ''http''" "0 \<le> max_retries" "downloaded < file_size"
  shows "\<exists>m rest. 0 < m
           \<and> turn_events (stream_turn net C url timeout max_retries file_size downloaded tr)
               = tr @ attempts net (window_url url downloaded (min (downloaded + C) file_size - 1))
                        timeout (clock tr) m @ rest
           \<and> (\<forall>e\<in>set (attempts net (window_url url downloaded (min (downloaded + C) file_size - 1))
                          timeout (clock tr) m).
                 \<exists>r. e = Request r
                    \<and> req_url r = url @ ''&range='' @ str_int downloaded @ ''-''
                                    @ str_int (min (downloaded + C) file_size - 1)
                    \<and> req_method r = Some ''GET''
                    \<and> map fst (req_headers r) = [''User-Agent'', ''accept-language'']
                    \<and> message_getitem (req_headers r) ''Range'' = None)"
proof -
  from stream_turn_starts [OF assms, of net C timeout tr] obtain m rest where
    m: "0 < m"
       "turn_events (stream_turn net C url timeout max_retries file_size downloaded tr)
          = tr @ attempts net (window_url url downloaded (min (downloaded + C) file_size - 1))
                   timeout (clock tr) m @ rest"
    by blast
  have "\<forall>e\<in>set (attempts net (window_url url downloaded (min (downloaded + C) file_size - 1))
                   timeout (clock tr) m).
          \<exists>r. e = Request r
             \<and> req_url r = url @ ''&range='' @ str_int downloaded @ ''-''
                             @ str_int (min (downloaded + C) file_size - 1)
             \<and> req_method r = Some ''GET''
             \<and> map fst (req_headers r) = [''User-Agent'', ''accept-language'']
             \<and> message_getitem (req_headers r) ''Range'' = None"
    using set_attempts [of _ net "window_url url downloaded (min (downloaded + C) file_size - 1)"]
    by (fastforce simp: window_url_def)
  with m show ?thesis by blast
qed

theorem stream_window_in_url_witness:
  "take 4 (lower ''http://h/v'') = ''http'' \<and> (0::int) \<le> 0 \<and> (0::int) < 10
   \<and> (\<exists>m rest. 0 < m
        \<and> turn_events (stream_turn (server [(''http://h/v'', ''abc'')]) 10 ''http://h/v'' None 0 10 0 [])
            = [] @ attempts (server [(''http://h/v'', ''abc'')]) (window_url ''http://h/v'' 0 (min (0 + 10) 10 - 1))
                     None (clock []) m @ rest
        \<and> (\<forall>e\<in>set (attempts (server [(''http://h/v'', ''abc'')])
                        (window_url ''http://h/v'' 0 (min (0 + 10) 10 - 1)) None (clock []) m).
              \<exists>r. e = Request r
                 \<and> req_url r = ''http://h/v'' @ ''&range='' @ str_int 0 @ ''-'' @ str_int (min (0 + 10) 10 - 1)
                 \<and> req_method r = Some ''GET''
                 \<and> map fst (req_headers r) = [''User-Agent'', ''accept-language'']
                 \<and> message_getitem (req_headers r) ''Range'' = None))"
proof -
  have v: "take 4 (lower ''http://h/v'') = ''http''" by code_simp
  from stream_window_in_url [OF v, of 0 0 10 "server [(''http://h/v'', ''abc'')]" 10 None "[]"]
  show ?thesis using v by simp
qed

text \<open>
  C7. For every sequential resource whose segment 0 declares the segment count
  \<open>N\<close> (where several lines declare one, the last, see C4), on a transport that
  serves each segment by the wire contract: \<open>seq_stream\<close> returns, and its events
  are those of \<open>stream\<close> on segment 0, then on segment 1, and so on up to segment
  \<open>N\<close>, each block whole and in this order. So the segments are requested and
  yielded in the order 0, 1, ..., \<open>N\<close> without gap, repetition or reordering, no
  request for segment \<open>k + 1\<close> precedes a chunk of segment \<open>k\<close>, nothing follows
  segment \<open>N\<close>, and the bytes yielded are the segments' bytes in order. This holds
  for every \<open>N \<ge> 0\<close>, in particular for \<open>N \<ge> 1\<close>.
\<close>

theorem seq_stream_in_order:
  assumes "\<forall>k\<le>N. serves net (segment_url lib url (int k)) (segs ! k)"
    and "take 4 (lower (base_url_of lib url)) = ''http''" "0 \<le> max_retries" "0 < C"
    and "last_declared (split_crlf (segs ! 0)) = Some (int N)"
  shows "\<exists>new. seq_stream net lib C url timeout max_retries tr = Some (Returned, tr @ new)
           \<and> map view new =
               concat (map (\<lambda>k. stream_events (segment_url lib url (int k)) timeout C (segs ! k)) [0..<Suc N])
           \<and> concat (map fst (yields new)) = concat (map (\<lambda>k. segs ! k) [0..<Suc N])"
proof -
  let ?ev = "\<lambda>k. stream_events (segment_url lib url (int k)) timeout C (segs ! k)"
  have s0: "serves net (segment_url lib url 0) (segs ! 0)" using assms(1) [rule_format, of 0] by simp
  from stream_served [OF s0 segment_url_valid [OF assms(2)] assms(3,4), of timeout tr]
  obtain new0 where
    n0: "stream net C (segment_url lib url 0) timeout max_retries tr = Some (Returned, tr @ new0)"
        "map view new0 = ?ev 0"
    by auto
  have "yields new0 = yields (?ev 0)" using n0(2) yields_view [of new0] by simp
  then have "concat (map chunk_of new0) = segs ! 0"
    using stream_events_yields [OF assms(4), of "segment_url lib url 0" timeout "segs ! 0"]
    by (simp add: chunk_of_yields)
  then have c: "last_declared (split_crlf (concat (map chunk_of (drop (length tr) (tr @ new0))))) = Some (int N)"
    using assms(5) by simp
  from seq_stream_loop_served [OF assms(1,2,3,4), of 1 "str_int 0" timeout "tr @ new0"]
  obtain new1 where
    n1: "seq_stream_loop net lib C (base_url_of lib url) (setitem ''sq'' (str_int 0) (querys_of lib url))
           timeout max_retries (int N) 1 (tr @ new0) = Some (Returned, (tr @ new0) @ new1)"
        "map view new1 = concat (map ?ev [1..<Suc N])"
    by auto
  have r: "seq_stream net lib C url timeout max_retries tr = Some (Returned, tr @ (new0 @ new1))"
    using n0(1) c n1(1) by (simp add: seq_stream_unfold)
  have "[0..<Suc N] = 0 # [1..<Suc N]" by (simp add: upt_conv_Cons)
  then have v: "map view (new0 @ new1) = concat (map ?ev [0..<Suc N])"
    using n0(2) n1(2) by simp
  have "yields (new0 @ new1) = yields (concat (map ?ev [0..<Suc N]))"
    using v yields_view [of "new0 @ new1"] by simp
  then have "concat (map fst (yields (new0 @ new1))) = concat (map (\<lambda>k. segs ! k) [0..<Suc N])"
    using stream_events_yields [OF assms(4)]
    by (simp only: yields_concat_map)
  with r v show ?thesis by blast
qed

theorem seq_stream_in_order_witness:
  "serves (server [(''http://h//v?x=1&sq=0'', ''Segment-Count: 1''), (''http://h//v?x=1&sq=1'', ''one'')])
      (segment_url plain_urllib ''http://h/v?x=1'' (int 0)) ([''Segment-Count: 1'', ''one''] ! 0)
   \<and> serves (server [(''http://h//v?x=1&sq=0'', ''Segment-Count: 1''), (''http://h//v?x=1&sq=1'', ''one'')])
      (segment_url plain_urllib ''http://h/v?x=1'' (int 1)) ([''Segment-Count: 1'', ''one''] ! 1)
   \<and> take 4 (lower (base_url_of plain_urllib ''http://h/v?x=1'')) = ''http''
   \<and> last_declared (split_crlf ([''Segment-Count: 1'', ''one''] ! 0)) = Some (int 1)
   \<and> (\<exists>new. seq_stream (server [(''http://h//v?x=1&sq=0'', ''Segment-Count: 1''), (''http://h//v?x=1&sq=1'', ''one'')])
               plain_urllib 10 ''http://h/v?x=1'' None 0 [] = Some (Returned, new)
          \<and> map view new =
               stream_events ''http://h//v?x=1&sq=0'' None 10 ''Segment-Count: 1''
               @ stream_events ''http://h//v?x=1&sq=1'' None 10 ''one''
          \<and> concat (map fst (yields new)) = ''Segment-Count: 1one'')"
proof -
  let ?t = "[(''http://h//v?x=1&sq=0'', ''Segment-Count: 1''), (''http://h//v?x=1&sq=1'', ''one'')]"
  let ?segs = "[''Segment-Count: 1'', ''one'']"
  let ?u = "''http://h/v?x=1''"
  have u: "segment_url plain_urllib ?u 0 = ''http://h//v?x=1&sq=0''"
          "segment_url plain_urllib ?u 1 = ''http://h//v?x=1&sq=1''"
    by code_simp+
  have s0: "serves (server ?t) ''http://h//v?x=1&sq=0'' ''Segment-Count: 1''"
    by (rule serves_server) simp_all
  have s1: "serves (server ?t) ''http://h//v?x=1&sq=1'' ''one''"
    by (rule serves_server) simp_all
  have s: "\<forall>k\<le>1. serves (server ?t) (segment_url plain_urllib ?u (int k)) (?segs ! k)"
    using s0 s1 by (auto simp: le_Suc_eq u)
  have v: "take 4 (lower (base_url_of plain_urllib ?u)) = ''http''" by code_simp
  have l: "last_declared (split_crlf (?segs ! 0)) = Some (int 1)" by code_simp
  from seq_stream_in_order [OF s v _ _ l, of 0 10 None "[]"]
  show ?thesis using s0 s1 v l by (simp add: u)
qed

text \<open>
  C8, as stated, fails in its second half: a body that has a matching line does
  not always give a sum. With the body \<open>Segment-Count: 0\<close> the function raises the
  pattern-not-matched error after the one \<open>GET\<close>.
\<close>

theorem seq_filesize_total_counterexample:
  "list_ex (\<lambda>line. segment_count_search line \<noteq> None) (split_crlf ''Segment-Count: 0'')
   \<and> (case seq_filesize (server [(''http://h//v?x=1&sq=0'', ''Segment-Count: 0'')]) plain_urllib
             ''http://h/v?x=1'' ([], []) of
        (r, cache, tr) \<Rightarrow> (r, requests tr))
     = (Inl (RegexMatchError ''seq_filesize'' segment_regex), [(Some ''GET'', ''http://h//v?x=1&sq=0'')])"
  by code_simp

text \<open>
  C8, as amended. On a call that is not answered from the cache, when the \<open>GET\<close>
  for segment 0 succeeds and its body is read: if no line of the body matches
  \<open>Segment-Count: <digits>\<close>, \<open>seq_filesize\<close> raises
  \<open>RegexMatchError('seq_filesize', segment_regex)\<close>, which names the function and the
  pattern, after that one request and no \<open>HEAD\<close>; if the last matching line declares
  a count \<open>N \<ge> 1\<close> and the \<open>HEAD\<close> request for each of the segments 1 to \<open>N\<close> is
  answered with a \<open>content-length\<close>, it makes exactly these \<open>N\<close> \<open>HEAD\<close> requests, in
  order, and returns the length of segment 0's body plus the sum of the reported
  lengths.
\<close>

theorem seq_filesize_total:
  assumes "map_of cache url = None"
    and "take 4 (lower (base_url_of lib url)) = ''http''"
    and "urlopen net (clock tr) (build_request net (clock tr) (segment_url lib url 0) (Some ''GET'') None None)
           = Inr response"
    and "read_body (resp_body response) = Inr body"
  shows "(last_declared (split_crlf body) = None \<longrightarrow>
            seq_filesize net lib url (cache, tr) =
              (Inl (RegexMatchError ''seq_filesize'' segment_regex), cache,
               tr @ [Request (build_request net (clock tr) (segment_url lib url 0) (Some ''GET'') None None)]))
       \<and> (1 \<le> N \<and> last_declared (split_crlf body) = Some (int N)
            \<and> (\<forall>k. 1 \<le> k \<and> k \<le> N \<longrightarrow> reports net (segment_url lib url (int k)) (sizes k)) \<longrightarrow>
            seq_filesize net lib url (cache, tr) =
              (Inr (int (length body) + (\<Sum>k = 1..N. sizes k)),
               (url, int (length body) + (\<Sum>k = 1..N. sizes k)) # take 127 cache,
               tr @ Request (build_request net (clock tr) (segment_url lib url 0) (Some ''GET'') None None)
                  # map (\<lambda>k. head_request net (clock tr + k) (segment_url lib url (int k))) [1..<Suc N]))"
proof (intro conjI impI)
  let ?g = "Request (build_request net (clock tr) (segment_url lib url 0) (Some ''GET'') None None)"
  assume "last_declared (split_crlf body) = None"
  then show "seq_filesize net lib url (cache, tr) =
      (Inl (RegexMatchError ''seq_filesize'' segment_regex), cache, tr @ [?g])"
    using assms(1) by (simp add: seq_filesize_def lru_cache_miss seq_filesize_wrapped_unfold [OF assms(2,3,4)])
next
  let ?g = "Request (build_request net (clock tr) (segment_url lib url 0) (Some ''GET'') None None)"
  assume a: "1 \<le> N \<and> last_declared (split_crlf body) = Some (int N)
            \<and> (\<forall>k. 1 \<le> k \<and> k \<le> N \<longrightarrow> reports net (segment_url lib url (int k)) (sizes k))"
  then have r: "\<forall>k. 1 \<le> k \<and> k \<le> N \<longrightarrow> reports net (segment_url lib url (int k)) (sizes k)" by blast
  from seq_filesize_loop_sum [OF r assms(2), of 1 "str_int 0" "int (length body)" "tr @ [?g]"]
  have l: "seq_filesize_loop net lib (base_url_of lib url) (setitem ''sq'' (str_int 0) (querys_of lib url))
        (int N) 1 (int (length body)) (tr @ [?g])
     = (Inr (int (length body) + (\<Sum>k = 1..N. sizes k)),
        (tr @ [?g]) @ map (\<lambda>k. head_request net (clock (tr @ [?g]) + (k - 1)) (segment_url lib url (int k))) [1..<Suc N])"
    by simp
  have m: "map (\<lambda>k. head_request net (clock (tr @ [?g]) + (k - 1)) (segment_url lib url (int k))) [1..<Suc N]
         = map (\<lambda>k. head_request net (clock tr + k) (segment_url lib url (int k))) [1..<Suc N]"
  proof (rule map_cong [OF refl])
    fix k assume "k \<in> set [1..<Suc N]"
    then have "1 \<le> k" by auto
    then have "clock (tr @ [?g]) + (k - 1) = clock tr + k" by simp
    then show "head_request net (clock (tr @ [?g]) + (k - 1)) (segment_url lib url (int k))
             = head_request net (clock tr + k) (segment_url lib url (int k))"
      by (simp only:)
  qed
  have n0: "int N \<noteq> 0" using a by simp
  show "seq_filesize net lib url (cache, tr) =
      (Inr (int (length body) + (\<Sum>k = 1..N. sizes k)),
       (url, int (length body) + (\<Sum>k = 1..N. sizes k)) # take 127 cache,
       tr @ ?g # map (\<lambda>k. head_request net (clock tr + k) (segment_url lib url (int k))) [1..<Suc N])"
    using assms(1) a n0 l [unfolded m]
    by (simp add: seq_filesize_def lru_cache_miss seq_filesize_wrapped_unfold [OF assms(2,3,4)] del: upt_Suc)
qed

theorem seq_filesize_total_witness:
  "seq_filesize (server [(''http://h//v?x=1&sq=0'', ''hello'')]) plain_urllib ''http://h/v?x=1'' ([], [])
   = (Inl (RegexMatchError ''seq_filesize'' segment_regex), [],
      [Request (build_request (server [(''http://h//v?x=1&sq=0'', ''hello'')]) 0
                  ''http://h//v?x=1&sq=0'' (Some ''GET'') None None)])
   \<and> seq_filesize (server [(''http://h//v?x=1&sq=0'', ''Segment-Count: 2''),
                            (''http://h//v?x=1&sq=1'', ''one''),
                            (''http://h//v?x=1&sq=2'', ''three'')])
         plain_urllib ''http://h/v?x=1'' ([], [])
     = (Inr 24, [(''http://h/v?x=1'', 24)],
        [Request (build_request (server [(''http://h//v?x=1&sq=0'', ''Segment-Count: 2''),
                                         (''http://h//v?x=1&sq=1'', ''one''),
                                         (''http://h//v?x=1&sq=2'', ''three'')]) 0
                    ''http://h//v?x=1&sq=0'' (Some ''GET'') None None),
         head_request (server [(''http://h//v?x=1&sq=0'', ''Segment-Count: 2''),
                               (''http://h//v?x=1&sq=1'', ''one''),
                               (''http://h//v?x=1&sq=2'', ''three'')]) 1 ''http://h//v?x=1&sq=1'',
         head_request (server [(''http://h//v?x=1&sq=0'', ''Segment-Count: 2''),
                               (''http://h//v?x=1&sq=1'', ''one''),
                               (''http://h//v?x=1&sq=2'', ''three'')]) 2 ''http://h//v?x=1&sq=2''])"
proof
  let ?net = "server [(''http://h//v?x=1&sq=0'', ''hello'')]"
  let ?u = "''http://h/v?x=1''"
  have u: "segment_url plain_urllib ?u 0 = ''http://h//v?x=1&sq=0''" by code_simp
  have c: "clock [] = 0" by (simp add: clock_def)
  have m: "map_of ([] :: (string \<times> int) list) ?u = None" by simp
  have v: "take 4 (lower (base_url_of plain_urllib ?u)) = ''http''" by code_simp
  have g: "urlopen ?net (clock []) (build_request ?net (clock []) (segment_url plain_urllib ?u 0) (Some ''GET'') None None)
         = Inr \<lparr>resp_info = [(''Content-Length'', str_int (int (length ''hello'')))], resp_body = whole ''hello''\<rparr>"
    unfolding u c by (simp add: server_def)
  have b: "read_body (resp_body \<lparr>resp_info = [(''Content-Length'', str_int (int (length ''hello'')))],
                resp_body = whole ''hello''\<rparr>) = Inr ''hello''"
    by simp
  have l: "last_declared (split_crlf ''hello'') = None" by code_simp
  from seq_filesize_total [OF m v g b, THEN conjunct1] l
  show "seq_filesize ?net plain_urllib ?u ([], [])
   = (Inl (RegexMatchError ''seq_filesize'' segment_regex), [],
      [Request (build_request ?net 0 ''http://h//v?x=1&sq=0'' (Some ''GET'') None None)])"
    unfolding u c by simp
next
  let ?t = "[(''http://h//v?x=1&sq=0'', ''Segment-Count: 2''),
             (''http://h//v?x=1&sq=1'', ''one''),
             (''http://h//v?x=1&sq=2'', ''three'')]"
  let ?net = "server ?t"
  let ?u = "''http://h/v?x=1''"
  let ?sizes = "\<lambda>k::nat. if k = 1 then 3 else (5::int)"
  have u: "segment_url plain_urllib ?u 0 = ''http://h//v?x=1&sq=0''"
          "segment_url plain_urllib ?u 1 = ''http://h//v?x=1&sq=1''"
          "segment_url plain_urllib ?u 2 = ''http://h//v?x=1&sq=2''"
    by code_simp+
  have c: "clock [] = 0" by (simp add: clock_def)
  have m: "map_of ([] :: (string \<times> int) list) ?u = None" by simp
  have v: "take 4 (lower (base_url_of plain_urllib ?u)) = ''http''" by code_simp
  have g: "urlopen ?net (clock []) (build_request ?net (clock []) (segment_url plain_urllib ?u 0) (Some ''GET'') None None)
         = Inr \<lparr>resp_info = [(''Content-Length'', str_int (int (length ''Segment-Count: 2'')))],
                resp_body = whole ''Segment-Count: 2''\<rparr>"
    unfolding u c by (simp add: server_def)
  have b: "read_body (resp_body \<lparr>resp_info = [(''Content-Length'', str_int (int (length ''Segment-Count: 2'')))],
                resp_body = whole ''Segment-Count: 2''\<rparr>) = Inr ''Segment-Count: 2''"
    by simp
  have l: "last_declared (split_crlf ''Segment-Count: 2'') = Some (int 2)" by code_simp
  have r1: "reports ?net ''http://h//v?x=1&sq=1'' (int (length ''one''))"
    by (rule reports_server) simp_all
  have r2: "reports ?net ''http://h//v?x=1&sq=2'' (int (length ''three''))"
    by (rule reports_server) simp_all
  have r: "\<forall>k. 1 \<le> k \<and> k \<le> 2 \<longrightarrow> reports ?net (segment_url plain_urllib ?u (int k)) (?sizes k)"
  proof (intro allI impI)
    fix k :: nat assume "1 \<le> k \<and> k \<le> 2"
    then have "k = 1 \<or> k = 2" by arith
    then show "reports ?net (segment_url plain_urllib ?u (int k)) (?sizes k)"
      using r1 r2 by (auto simp: u)
  qed
  have s: "(\<Sum>k = 1..2. ?sizes k) = 8"
    by (simp add: numeral_2_eq_2 sum.atLeast_Suc_atMost)
  have h: "[1..<Suc 2] = [1, 2]" by (simp add: numeral_2_eq_2 upt_conv_Cons)
  from seq_filesize_total [OF m v g b, THEN conjunct2, rule_format, of 2 ?sizes] l r
  show "seq_filesize ?net plain_urllib ?u ([], [])
     = (Inr 24, [(?u, 24)],
        [Request (build_request ?net 0 ''http://h//v?x=1&sq=0'' (Some ''GET'') None None),
         head_request ?net 1 ''http://h//v?x=1&sq=1'',
         head_request ?net 2 ''http://h//v?x=1&sq=2''])"
    unfolding u c s h by (simp add: u)
qed



text \<open>
  C10, as stated, fails: a line with the count zero does not force the error when
  a later line declares another count, since the last match is the one that
  counts. Here the lines declare 0 and then 1, and \<open>seq_filesize\<close> returns 37 after
  one \<open>GET\<close> and one \<open>HEAD\<close>.
\<close>

theorem seq_filesize_zero_count_counterexample:
  "list_ex (\<lambda>line. segment_count_search line = Some ''0'')
     (split_crlf (''Segment-Count: 0'' @ [CHR 0x0D, CHR 0x0A] @ ''Segment-Count: 1''))
   \<and> (case seq_filesize
             (server [(''http://h//v?x=1&sq=0'', ''Segment-Count: 0'' @ [CHR 0x0D, CHR 0x0A] @ ''Segment-Count: 1''),
                      (''http://h//v?x=1&sq=1'', ''one'')])
             plain_urllib ''http://h/v?x=1'' ([], []) of
        (r, cache, tr) \<Rightarrow> (r, requests tr))
     = (Inr 37, [(Some ''GET'', ''http://h//v?x=1&sq=0''), (Some ''HEAD'', ''http://h//v?x=1&sq=1'')])"
  by code_simp

text \<open>
  C10, as amended. On a call that is not answered from the cache, when the \<open>GET\<close>
  for segment 0 succeeds and its body is read: if the last line of the body that
  matches the pattern declares the count zero (so also when the only matching line
  is \<open>Segment-Count: 0\<close>), \<open>seq_filesize\<close> raises the pattern-not-matched error after
  that one request, as it does when no line matches; it never returns for that
  count.
\<close>

theorem seq_filesize_zero_count:
  assumes "map_of cache url = None"
    and "take 4 (lower (base_url_of lib url)) = ''http''"
    and "urlopen net (clock tr) (build_request net (clock tr) (segment_url lib url 0) (Some ''GET'') None None)
           = Inr response"
    and "read_body (resp_body response) = Inr body"
    and "last_declared (split_crlf body) = Some 0"
  shows "seq_filesize net lib url (cache, tr) =
           (Inl (RegexMatchError ''seq_filesize'' segment_regex), cache,
            tr @ [Request (build_request net (clock tr) (segment_url lib url 0) (Some ''GET'') None None)])"
  using assms(1,5)
  by (simp add: seq_filesize_def lru_cache_miss seq_filesize_wrapped_unfold [OF assms(2,3,4)])

theorem seq_filesize_zero_count_witness:
  "seq_filesize (server [(''http://h//v?x=1&sq=0'', ''Segment-Count: 0'')]) plain_urllib ''http://h/v?x=1'' ([], [])
   = (Inl (RegexMatchError ''seq_filesize'' segment_regex), [],
      [Request (build_request (server [(''http://h//v?x=1&sq=0'', ''Segment-Count: 0'')]) 0
                  ''http://h//v?x=1&sq=0'' (Some ''GET'') None None)])"
proof -
  let ?net = "server [(''http://h//v?x=1&sq=0'', ''Segment-Count: 0'')]"
  let ?u = "''http://h/v?x=1''"
  have u: "segment_url plain_urllib ?u 0 = ''http://h//v?x=1&sq=0''" by code_simp
  have c: "clock [] = 0" by (simp add: clock_def)
  have m: "map_of ([] :: (string \<times> int) list) ?u = None" by simp
  have v: "take 4 (lower (base_url_of plain_urllib ?u)) = ''http''" by code_simp
  have g: "urlopen ?net (clock []) (build_request ?net (clock []) (segment_url plain_urllib ?u 0) (Some ''GET'') None None)
         = Inr \<lparr>resp_info = [(''Content-Length'', str_int (int (length ''Segment-Count: 0'')))],
                resp_body = whole ''Segment-Count: 0''\<rparr>"
    unfolding u c by (simp add: server_def)
  have b: "read_body (resp_body \<lparr>resp_info = [(''Content-Length'', str_int (int (length ''Segment-Count: 0'')))],
                resp_body = whole ''Segment-Count: 0''\<rparr>) = Inr ''Segment-Count: 0''"
    by simp
  have l: "last_declared (split_crlf ''Segment-Count: 0'') = Some 0" by code_simp
  from seq_filesize_zero_count [OF m v g b l]
  show ?thesis unfolding u c by simp
qed

end
